theory Spec2Isabelle
  imports Main "HOL-Library.Word" "HOL-Library.Multiset"
begin

section \<open>Machine numbers\<close>

text \<open>
  A C \<open>int\<close> is a 32-bit word read in two's complement (\<open>sint\<close>). Subtraction on it
  wraps around; the C standard leaves signed overflow undefined, and the wrap-around is what
  the usual two's complement targets compute.

  A C \<open>float\<close> is an IEEE-754 binary32 bit pattern, also a 32-bit word: bit 31 is the
  sign, bits 30..23 the biased exponent, bits 22..0 the fraction. The magnitude of a finite
  float is counted in units of \<open>2 ^ -149\<close> (the smallest subnormal), which makes it a
  natural number; arithmetic is exact arithmetic on these numbers followed by one rounding to
  nearest, ties to even. IEEE-754 leaves the bits of a NaN result to the implementation; they
  are here those of the SSE instructions that gcc emits on x86-64 for \<open>+\<close> and \<open>/\<close> with
  the flags of the Makefile of the repository (no optimisation, operands in source order): a
  NaN operand comes back with its sign and payload and the quiet bit set, the first operand
  before the second, and an operation without a result (\<open>inf - inf\<close>, \<open>0 / 0\<close>,
  \<open>inf / inf\<close>) gives the default NaN \<open>0xFFC00000\<close>.
\<close>

type_synonym c_int = "32 word"
type_synonym float = "32 word"

definition fmag :: "float \<Rightarrow> nat" where
  "fmag w = unat w mod 2 ^ 31"

definition fsign :: "float \<Rightarrow> bool" where
  "fsign w = (2 ^ 31 \<le> unat w)"

definition f_inf_bits :: nat where
  "f_inf_bits = 255 * 2 ^ 23"

definition is_nan :: "float \<Rightarrow> bool" where
  "is_nan w = (f_inf_bits < fmag w)"

definition is_inf :: "float \<Rightarrow> bool" where
  "is_inf w = (fmag w = f_inf_bits)"

definition units_of_bits :: "nat \<Rightarrow> nat" where
  "units_of_bits m =
     (if m div 2 ^ 23 = 0 then m mod 2 ^ 23
      else (2 ^ 23 + m mod 2 ^ 23) * 2 ^ (m div 2 ^ 23 - 1))"

definition funits :: "float \<Rightarrow> nat" where
  "funits w = units_of_bits (fmag w)"

definition fval :: "float \<Rightarrow> int" where
  "fval w = (if fsign w then - int (funits w) else int (funits w))"

definition f_nan :: float where
  "f_nan = 0xFFC00000"

definition quiet_nan :: "float \<Rightarrow> float" where
  "quiet_nan w = set_bit 22 w"

definition f_zero :: float where
  "f_zero = 0"

definition mk_float :: "bool \<Rightarrow> nat \<Rightarrow> float" where
  "mk_float neg m = of_nat (if neg then 2 ^ 31 + m else m)"

fun bit_length :: "nat \<Rightarrow> nat" where
  "bit_length n = (if n = 0 then 0 else Suc (bit_length (n div 2)))"

declare bit_length.simps [simp del]

definition round_units :: "nat \<Rightarrow> nat \<Rightarrow> nat" where
  "round_units num den =
     (let sh = bit_length (num div den) - 24;
          d = den * 2 ^ sh;
          q = num div d;
          r = num mod d;
          q' = (if d < 2 * r \<or> (2 * r = d \<and> odd q) then q + 1 else q)
      in min f_inf_bits (sh * 2 ^ 23 + q'))"

definition flt :: "float \<Rightarrow> float \<Rightarrow> bool" where
  "flt a b = (\<not> is_nan a \<and> \<not> is_nan b \<and> fval a < fval b)"

definition fgt :: "float \<Rightarrow> float \<Rightarrow> bool" where
  "fgt a b = flt b a"

definition fadd :: "float \<Rightarrow> float \<Rightarrow> float" where
  "fadd a b =
     (if is_nan a then quiet_nan a
      else if is_nan b then quiet_nan b
      else if is_inf a \<and> is_inf b then (if fsign a = fsign b then a else f_nan)
      else if is_inf a then a
      else if is_inf b then b
      else (let s = fval a + fval b
            in if s = 0 then mk_float (fsign a \<and> fsign b) 0
               else mk_float (s < 0) (round_units (nat \<bar>s\<bar>) 1)))"

definition fdiv :: "float \<Rightarrow> float \<Rightarrow> float" where
  "fdiv a b =
     (let neg = (fsign a \<noteq> fsign b)
      in if is_nan a then quiet_nan a
         else if is_nan b then quiet_nan b
         else if is_inf a then (if is_inf b then f_nan else mk_float neg f_inf_bits)
         else if is_inf b then mk_float neg 0
         else if funits b = 0 then (if funits a = 0 then f_nan else mk_float neg f_inf_bits)
         else mk_float neg (round_units (funits a * 2 ^ 149) (funits b)))"

definition float_of_int :: "int \<Rightarrow> float" where
  "float_of_int n = mk_float (n < 0) (round_units (nat \<bar>n\<bar> * 2 ^ 149) 1)"

section \<open>The record store\<close>

text \<open>
  \<open>Student\<close> of student.h. The field \<open>id\<close> is \<open>id_st\<close> here; \<open>gradeCount\<close> is the
  length of \<open>grades\<close>, the heap block the record owns. No two live records share a grade
  block (a struct copy moves the pointer, and the source frees a block only with its record),
  so the block is a value inside the record. The store is the array \<open>students\<close> up to
  \<open>students_size\<close>; allocation is taken to succeed and the counts to fit a C int.
\<close>

record Student =
  id_st :: c_int
  name :: string
  grades :: "float list"
  average :: float

type_synonym store = "Student list"

datatype SortKey = SORT_BY_ID | SORT_BY_AVG

datatype SortMethod = BUBBLE | INSERTION | MERGE

definition NAME_LEN :: nat where
  "NAME_LEN = 50"

definition init_students :: store where
  "init_students = []"

function index_of_id_loop :: "store \<Rightarrow> c_int \<Rightarrow> nat \<Rightarrow> int" where
  "index_of_id_loop students i_d i =
     (if i < length students
      then (if id_st (students ! i) = i_d then int i
            else index_of_id_loop students i_d (i + 1))
      else - 1)"
  by pat_completeness auto
termination
  by (relation "measure (\<lambda>(students, i_d, i). length students - i)") auto

declare index_of_id_loop.simps [simp del]

definition index_of_id :: "store \<Rightarrow> c_int \<Rightarrow> int" where
  "index_of_id students i_d = index_of_id_loop students i_d 0"

text \<open>\<open>strncpy\<close> into the 50-byte field, then the terminator at byte 49; a null source
  pointer (\<open>None\<close>) stands for the empty string in \<open>add_student\<close>.\<close>

definition copy_name :: "string \<Rightarrow> string" where
  "copy_name src = take (NAME_LEN - 1) src"

definition add_student :: "store \<Rightarrow> c_int \<Rightarrow> string option \<Rightarrow> bool \<times> store" where
  "add_student students i_d nm =
     (if index_of_id students i_d \<noteq> - 1 then (False, students)
      else (True, students @
              [\<lparr>id_st = i_d,
                name = copy_name (case nm of None \<Rightarrow> [] | Some n \<Rightarrow> n),
                grades = [], average = f_zero\<rparr>]))"

function shift_left :: "store \<Rightarrow> nat \<Rightarrow> store" where
  "shift_left students i =
     (if i + 1 < length students
      then shift_left (students[i := students ! (i + 1)]) (i + 1)
      else students)"
  by pat_completeness auto
termination
  by (relation "measure (\<lambda>(students, i). length students - i)") auto

declare shift_left.simps [simp del]

definition delete_student :: "store \<Rightarrow> c_int \<Rightarrow> bool \<times> store" where
  "delete_student students i_d =
     (let idx = index_of_id students i_d
      in if idx = - 1 then (False, students)
         else (True, butlast (shift_left students (nat idx))))"

definition update_student_name :: "store \<Rightarrow> c_int \<Rightarrow> string \<Rightarrow> bool \<times> store" where
  "update_student_name students i_d newname =
     (let idx = index_of_id students i_d
      in if idx = - 1 then (False, students)
         else (True, students[nat idx := (students ! nat idx)\<lparr>name := copy_name newname\<rparr>]))"

text \<open>\<open>sum_grades_recursive (grades, n)\<close>: the list is the memory from the pointer on, and
  \<open>n\<close> (never negative at the call) the number of floats to add.\<close>

function sum_grades_recursive :: "float list \<Rightarrow> nat \<Rightarrow> float" where
  "sum_grades_recursive gs n =
     (if n = 0 then f_zero
      else if n = 1 then gs ! 0
      else (let mid = n div 2;
                left = sum_grades_recursive gs mid;
                right = sum_grades_recursive (drop mid gs) (n - mid)
            in fadd left right))"
  by pat_completeness auto
termination
  by (relation "measure (\<lambda>(gs, n). n)") auto

declare sum_grades_recursive.simps [simp del]

definition recalc_average :: "Student \<Rightarrow> Student" where
  "recalc_average s =
     (if length (grades s) = 0 then s\<lparr>average := f_zero\<rparr>
      else (let sum = sum_grades_recursive (grades s) (length (grades s))
            in s\<lparr>average := fdiv sum (float_of_int (int (length (grades s))))\<rparr>))"

definition add_grade_to_student :: "store \<Rightarrow> c_int \<Rightarrow> float \<Rightarrow> bool \<times> store" where
  "add_grade_to_student students i_d grade =
     (let idx = index_of_id students i_d
      in if idx = - 1 then (False, students)
         else (let s = students ! nat idx
               in (True, students[nat idx := recalc_average (s\<lparr>grades := grades s @ [grade]\<rparr>)])))"

section \<open>Sorting\<close>

definition cmp_students :: "Student \<Rightarrow> Student \<Rightarrow> SortKey \<Rightarrow> int" where
  "cmp_students a b key =
     (case key of
        SORT_BY_ID \<Rightarrow> sint (id_st a - id_st b)
      | SORT_BY_AVG \<Rightarrow>
          (if flt (average a) (average b) then - 1
           else if fgt (average a) (average b) then 1
           else 0))"

definition swap_students :: "store \<Rightarrow> nat \<Rightarrow> nat \<Rightarrow> store" where
  "swap_students students a b = students[a := students ! b, b := students ! a]"

text \<open>The inner loop of \<open>bubble_sort\<close> from index \<open>j\<close> up to the bound \<open>lim\<close>
  (\<open>students_size - 1 - i\<close>), with the flag \<open>swapped\<close>.\<close>

function bubble_inner :: "SortKey \<Rightarrow> store \<Rightarrow> nat \<Rightarrow> nat \<Rightarrow> bool \<Rightarrow> store \<times> bool" where
  "bubble_inner key students j lim swapped =
     (if j < lim
      then (if 0 < cmp_students (students ! j) (students ! (j + 1)) key
            then bubble_inner key (swap_students students j (j + 1)) (j + 1) lim True
            else bubble_inner key students (j + 1) lim swapped)
      else (students, swapped))"
  by pat_completeness auto
termination
  by (relation "measure (\<lambda>(key, students, j, lim, swapped). lim - j)") auto

declare bubble_inner.simps [simp del]

function bubble_outer :: "SortKey \<Rightarrow> nat \<Rightarrow> store \<Rightarrow> nat \<Rightarrow> store" where
  "bubble_outer key n students i =
     (if i < n - 1
      then (case bubble_inner key students 0 (n - 1 - i) False of
              (students', swapped) \<Rightarrow>
                if \<not> swapped then students' else bubble_outer key n students' (i + 1))
      else students)"
  by pat_completeness auto
termination
  by (relation "measure (\<lambda>(key, n, students, i). n - i)") auto

declare bubble_outer.simps [simp del]

definition bubble_sort :: "SortKey \<Rightarrow> store \<Rightarrow> store" where
  "bubble_sort key students = bubble_outer key (length students) students 0"

text \<open>The \<open>while\<close> loop of \<open>insertion_sort\<close>. The source counts \<open>j\<close> down to \<open>-1\<close>; here
  \<open>k\<close> is \<open>j + 1\<close>, the slot that is free, so the test \<open>j >= 0\<close> is \<open>0 < k\<close>. The result
  is the array after the final store \<open>students[j+1] = keyStudent\<close>.\<close>

function insertion_inner :: "SortKey \<Rightarrow> Student \<Rightarrow> store \<Rightarrow> nat \<Rightarrow> store" where
  "insertion_inner key keyStudent students k =
     (if 0 < k \<and> 0 < cmp_students (students ! (k - 1)) keyStudent key
      then insertion_inner key keyStudent (students[k := students ! (k - 1)]) (k - 1)
      else students[k := keyStudent])"
  by pat_completeness auto
termination
  by (relation "measure (\<lambda>(key, keyStudent, students, k). k)") auto

declare insertion_inner.simps [simp del]

function insertion_outer :: "SortKey \<Rightarrow> nat \<Rightarrow> store \<Rightarrow> nat \<Rightarrow> store" where
  "insertion_outer key n students i =
     (if i < n
      then insertion_outer key n (insertion_inner key (students ! i) students i) (i + 1)
      else students)"
  by pat_completeness auto
termination
  by (relation "measure (\<lambda>(key, n, students, i). n - i)") auto

declare insertion_outer.simps [simp del]

definition insertion_sort :: "SortKey \<Rightarrow> store \<Rightarrow> store" where
  "insertion_sort key students = insertion_outer key (length students) students 1"

text \<open>\<open>merge_range\<close>: the two copy loops fill the buffers \<open>L\<close> and \<open>R\<close>; the main loop
  and the two draining loops write back from index \<open>k\<close>.\<close>

definition copy_out :: "store \<Rightarrow> nat \<Rightarrow> nat \<Rightarrow> store" where
  "copy_out students start n = map (\<lambda>i. students ! (start + i)) [0..<n]"

function merge_loop ::
  "SortKey \<Rightarrow> store \<Rightarrow> store \<Rightarrow> store \<Rightarrow> nat \<Rightarrow> nat \<Rightarrow> nat \<Rightarrow> store \<times> nat \<times> nat \<times> nat" where
  "merge_loop key L R students i j k =
     (if i < length L \<and> j < length R
      then (if cmp_students (L ! i) (R ! j) key \<le> 0
            then merge_loop key L R (students[k := L ! i]) (i + 1) j (k + 1)
            else merge_loop key L R (students[k := R ! j]) i (j + 1) (k + 1))
      else (students, i, j, k))"
  by pat_completeness auto
termination
  by (relation "measure (\<lambda>(key, L, R, students, i, j, k). (length L - i) + (length R - j))") auto

declare merge_loop.simps [simp del]

function drain :: "store \<Rightarrow> store \<Rightarrow> nat \<Rightarrow> nat \<Rightarrow> store \<times> nat" where
  "drain B students i k =
     (if i < length B then drain B (students[k := B ! i]) (i + 1) (k + 1)
      else (students, k))"
  by pat_completeness auto
termination
  by (relation "measure (\<lambda>(B, students, i, k). length B - i)") auto

declare drain.simps [simp del]

definition merge_range :: "SortKey \<Rightarrow> store \<Rightarrow> nat \<Rightarrow> nat \<Rightarrow> nat \<Rightarrow> store" where
  "merge_range key students left mid right =
     (let n1 = mid - left + 1;
          n2 = right - mid;
          L = copy_out students left n1;
          R = copy_out students (mid + 1) n2
      in case merge_loop key L R students 0 0 left of
           (s1, i, j, k) \<Rightarrow>
             (case drain L s1 i k of
                (s2, k2) \<Rightarrow> fst (drain R s2 j k2)))"

function merge_sort_recursive :: "SortKey \<Rightarrow> store \<Rightarrow> nat \<Rightarrow> nat \<Rightarrow> store" where
  "merge_sort_recursive key students left right =
     (if right \<le> left then students
      else (let mid = left + (right - left) div 2;
                s1 = merge_sort_recursive key students left mid;
                s2 = merge_sort_recursive key s1 (mid + 1) right
            in merge_range key s2 left mid right))"
  by pat_completeness auto
termination
  by (relation "measure (\<lambda>(key, students, left, right). right - left)") auto

declare merge_sort_recursive.simps [simp del]

definition sort_students :: "SortMethod \<Rightarrow> SortKey \<Rightarrow> store \<Rightarrow> store" where
  "sort_students method key students =
     (if length students \<le> 1 then students
      else (case method of
              BUBBLE \<Rightarrow> bubble_sort key students
            | INSERTION \<Rightarrow> insertion_sort key students
            | MERGE \<Rightarrow> merge_sort_recursive key students 0 (length students - 1)))"

section \<open>Searching and statistics\<close>

text \<open>\<open>binary_search_by_id_recursive\<close>. The bounds are C ints and may be \<open>-1\<close>, so they
  are integers here. A read of \<open>students[mid]\<close> outside the array is \<open>None\<close>; \<open>Some (-1)\<close>
  is the sentinel of the source.\<close>

function binary_search_by_id_recursive :: "store \<Rightarrow> c_int \<Rightarrow> int \<Rightarrow> int \<Rightarrow> int option" where
  "binary_search_by_id_recursive students target_id left right =
     (if right < left then Some (- 1)
      else (let mid = left + (right - left) div 2
            in if mid < 0 \<or> int (length students) \<le> mid then None
               else if id_st (students ! nat mid) = target_id then Some mid
               else if sint target_id < sint (id_st (students ! nat mid))
                    then binary_search_by_id_recursive students target_id left (mid - 1)
                    else binary_search_by_id_recursive students target_id (mid + 1) right))"
  by pat_completeness auto
termination
  by (relation "measure (\<lambda>(students, target_id, left, right). nat (right - left + 1))") auto

declare binary_search_by_id_recursive.simps [simp del]

text \<open>The loop of \<open>class_highest_lowest\<close> from index \<open>i\<close>, on the four out-parameters.\<close>

function highest_lowest_loop ::
  "store \<Rightarrow> nat \<Rightarrow> float \<times> nat \<times> float \<times> nat \<Rightarrow> float \<times> nat \<times> float \<times> nat" where
  "highest_lowest_loop students i (highest, h_idx, lowest, l_idx) =
     (if i < length students
      then (let a = average (students ! i);
                (highest', h_idx') = (if fgt a highest then (a, i) else (highest, h_idx));
                (lowest', l_idx') = (if flt a lowest then (a, i) else (lowest, l_idx))
            in highest_lowest_loop students (i + 1) (highest', h_idx', lowest', l_idx'))
      else (highest, h_idx, lowest, l_idx))"
  by pat_completeness auto
termination
  by (relation "measure (\<lambda>(students, i, r). length students - i)") auto

declare highest_lowest_loop.simps [simp del]

definition class_highest_lowest :: "store \<Rightarrow> (float \<times> nat \<times> float \<times> nat) option" where
  "class_highest_lowest students =
     (if length students = 0 then None
      else Some (highest_lowest_loop students 1
                   (average (students ! 0), 0, average (students ! 0), 0)))"

definition students_count :: "store \<Rightarrow> int" where
  "students_count students = int (length students)"

section \<open>Reachable stores\<close>

text \<open>The stores the program can be in: the empty store of \<open>init_students\<close>, changed by
  any of the five mutating entry points of student.h, with any arguments.\<close>

inductive reachable :: "store \<Rightarrow> bool" where
  r_init: "reachable init_students"
| r_add: "reachable s \<Longrightarrow> reachable (snd (add_student s i_d nm))"
| r_delete: "reachable s \<Longrightarrow> reachable (snd (delete_student s i_d))"
| r_update: "reachable s \<Longrightarrow> reachable (snd (update_student_name s i_d newname))"
| r_grade: "reachable s \<Longrightarrow> reachable (snd (add_grade_to_student s i_d g))"
| r_sort: "reachable s \<Longrightarrow> reachable (sort_students method key s)"

section \<open>Predicates used in the proofs\<close>

text \<open>What a call of the binary search on the interval from \<open>left\<close> to \<open>right\<close> may
  return: the sentinel when no index of the interval holds the target, or an index of the
  interval that holds it; never an out-of-range read.\<close>

definition bs_post :: "store \<Rightarrow> c_int \<Rightarrow> int \<Rightarrow> int \<Rightarrow> int option \<Rightarrow> bool" where
  "bs_post students t left right res =
     (case res of
        None \<Rightarrow> False
      | Some r \<Rightarrow>
          (r = - 1 \<and> (\<forall>i. left \<le> i \<and> i \<le> right \<longrightarrow> id_st (students ! nat i) \<noteq> t)) \<or>
          (left \<le> r \<and> r \<le> right \<and> id_st (students ! nat r) = t))"

text \<open>\<open>a <= b\<close> on floats, false when either side is NaN.\<close>

definition fle :: "float \<Rightarrow> float \<Rightarrow> bool" where
  "fle a b = (\<not> is_nan a \<and> \<not> is_nan b \<and> fval a \<le> fval b)"

text \<open>The invariant of the loop of \<open>class_highest_lowest\<close> before index \<open>i\<close>: the two
  indices are below \<open>i\<close> and hold the two values; when the average of record 0 is not NaN,
  neither value is NaN and they bound every average before \<open>i\<close> that is not NaN, strictly
  before their own index.\<close>

definition hl_inv :: "store \<Rightarrow> nat \<Rightarrow> float \<times> nat \<times> float \<times> nat \<Rightarrow> bool" where
  "hl_inv students i r =
     (case r of (highest, h_idx, lowest, l_idx) \<Rightarrow>
        h_idx < i \<and> l_idx < i \<and>
        highest = average (students ! h_idx) \<and> lowest = average (students ! l_idx) \<and>
        (\<not> is_nan (average (students ! 0)) \<longrightarrow>
         \<not> is_nan highest \<and> \<not> is_nan lowest \<and>
         (\<forall>j<i. \<not> is_nan (average (students ! j)) \<longrightarrow> fle (average (students ! j)) highest) \<and>
         (\<forall>j<h_idx. \<not> is_nan (average (students ! j)) \<longrightarrow> flt (average (students ! j)) highest) \<and>
         (\<forall>j<i. \<not> is_nan (average (students ! j)) \<longrightarrow> fle lowest (average (students ! j))) \<and>
         (\<forall>j<l_idx. \<not> is_nan (average (students ! j)) \<longrightarrow> flt lowest (average (students ! j)))))"

text \<open>The sort key as an integer: the signed id, or the value of the average in units of
  \<open>2 ^ -149\<close>.\<close>

definition key_val :: "SortKey \<Rightarrow> Student \<Rightarrow> int" where
  "key_val key s = (case key of SORT_BY_ID \<Rightarrow> sint (id_st s) | SORT_BY_AVG \<Rightarrow> fval (average s))"

text \<open>On the records of \<open>A\<close> the comparator agrees with the order of the keys.\<close>

definition comparable :: "SortKey \<Rightarrow> Student set \<Rightarrow> bool" where
  "comparable key A =
     (\<forall>a\<in>A. \<forall>b\<in>A. (0 < cmp_students a b key) = (key_val key b < key_val key a))"

text \<open>The merge of two buffers as a list function, with the test of \<open>merge_range\<close>.\<close>

fun merge_lists :: "SortKey \<Rightarrow> store \<Rightarrow> store \<Rightarrow> store" where
  "merge_lists key [] R = R"
| "merge_lists key L [] = L"
| "merge_lists key (a # L) (b # R) =
     (if cmp_students a b key \<le> 0 then a # merge_lists key L (b # R)
      else b # merge_lists key (a # L) R)"

text \<open>The part of the array from index \<open>l\<close> to index \<open>r\<close>, both included.\<close>

definition segment :: "store \<Rightarrow> nat \<Rightarrow> nat \<Rightarrow> store" where
  "segment xs l r = take (Suc r - l) (drop l xs)"

text \<open>What \<open>merge_sort_recursive\<close> puts in place of the segment from \<open>l\<close> to \<open>r\<close>: a
  rearrangement of it, which is sorted and keeps records of equal key in their order when the
  comparator agrees with the keys.\<close>

definition msr_post :: "SortKey \<Rightarrow> store \<Rightarrow> nat \<Rightarrow> nat \<Rightarrow> store \<Rightarrow> bool" where
  "msr_post key xs l r seg =
     (length seg = Suc r - l \<and> mset seg = mset (segment xs l r) \<and>
      (comparable key (set xs) \<longrightarrow>
         sorted (map (key_val key) seg) \<and>
         (\<forall>c. filter (\<lambda>s. key_val key s = c) seg =
              filter (\<lambda>s. key_val key s = c) (segment xs l r))))"

text \<open>\<open>a == b\<close> on floats: false when either side is NaN, true for the two zeros.\<close>

definition feq :: "float \<Rightarrow> float \<Rightarrow> bool" where
  "feq a b = (\<not> is_nan a \<and> \<not> is_nan b \<and> fval a = fval b)"

text \<open>The records whose average is equal to \<open>a\<close>.\<close>

definition same_average :: "float \<Rightarrow> Student \<Rightarrow> bool" where
  "same_average a s = feq (average s) a"

text \<open>No difference of two ids of the store leaves the range of a C int.\<close>

definition id_differences_fit :: "store \<Rightarrow> bool" where
  "id_differences_fit students =
     (\<forall>a\<in>set students. \<forall>b\<in>set students.
        - (2 ^ 31) \<le> sint (id_st a) - sint (id_st b) \<and> sint (id_st a) - sint (id_st b) < 2 ^ 31)"

definition no_nan_average :: "store \<Rightarrow> bool" where
  "no_nan_average students = (\<forall>s\<in>set students. \<not> is_nan (average s))"

text \<open>The value that \<open>recalc_average\<close> stores for a record with the grades \<open>gs\<close>: a name
  for the expression of the source, used to state the invariant that every average in a
  reachable store has been recomputed from the grades beside it.\<close>

definition recomputed_average :: "float list \<Rightarrow> float" where
  "recomputed_average gs =
     (if gs = [] then f_zero
      else fdiv (sum_grades_recursive gs (length gs)) (float_of_int (int (length gs))))"

text \<open>One call of \<open>add_student\<close> in a sequence of calls.\<close>

definition add_step :: "store \<Rightarrow> c_int \<times> string option \<Rightarrow> store" where
  "add_step students call = snd (add_student students (fst call) (snd call))"

text \<open>Two records are in order when the comparator does not put the first after the second.\<close>

definition in_order :: "SortKey \<Rightarrow> Student \<Rightarrow> Student \<Rightarrow> bool" where
  "in_order key a b = (\<not> 0 < cmp_students a b key)"

text \<open>Every record before index \<open>j\<close> has a later record, not after index \<open>j\<close>, that it is in
  order with.\<close>

definition has_later :: "SortKey \<Rightarrow> store \<Rightarrow> nat \<Rightarrow> bool" where
  "has_later key xs j = (\<forall>s<j. \<exists>t. s < t \<and> t \<le> j \<and> in_order key (xs ! s) (xs ! t))"

text \<open>In a pass of bubble sort that started on \<open>xs0\<close>, the record at index \<open>j\<close> of \<open>xs\<close> came
  from an index \<open>s\<close> of \<open>xs0\<close> over all the records between, each out of order with it, and
  nothing after index \<open>j\<close> has changed.\<close>

definition carried :: "SortKey \<Rightarrow> store \<Rightarrow> store \<Rightarrow> nat \<Rightarrow> bool" where
  "carried key xs0 xs j =
     ((\<exists>s\<le>j. xs ! j = xs0 ! s \<and> (\<forall>t. s < t \<and> t \<le> j \<longrightarrow> \<not> in_order key (xs0 ! s) (xs0 ! t))) \<and>
      (\<forall>t. j < t \<and> t < length xs0 \<longrightarrow> xs ! t = xs0 ! t))"

text \<open>Before pass \<open>i\<close> of bubble sort: the pairs from index \<open>n - i - 1\<close> on are in order, and
  after the first pass every record before index \<open>n - i\<close> has a later record it is in order
  with.\<close>

definition bubble_inv :: "SortKey \<Rightarrow> nat \<Rightarrow> store \<Rightarrow> nat \<Rightarrow> bool" where
  "bubble_inv key n xs i =
     ((\<forall>j. n - i - 1 \<le> j \<and> Suc j < n \<longrightarrow> in_order key (xs ! j) (xs ! Suc j)) \<and>
      (0 < i \<longrightarrow> has_later key xs (n - i)))"

section \<open>Exact sums, and the sums and the mean of the specification\<close>

text \<open>A float that is neither a NaN nor an infinity.\<close>

definition is_finite :: "float \<Rightarrow> bool" where
  "is_finite w = (fmag w < f_inf_bits)"

text \<open>The sum of a list of floats as exact numbers, and the sum of their absolute values,
  both in units of \<open>2 ^ -149\<close>.\<close>

definition exact_sum :: "float list \<Rightarrow> int" where
  "exact_sum gs = sum_list (map fval gs)"

definition magnitude_sum :: "float list \<Rightarrow> int" where
  "magnitude_sum gs = sum_list (map (\<lambda>g. \<bar>fval g\<bar>) gs)"

definition all_finite :: "float list \<Rightarrow> bool" where
  "all_finite gs = (\<forall>g\<in>set gs. is_finite g)"

text \<open>The two sums in the words of the specification. The divide-and-conquer sum: zero for
  no element, the element itself for one, and otherwise the float sum of the sums of the two
  halves, split at the midpoint. The naive sum: from zero, one element after the other from
  left to right.\<close>

function divide_and_conquer_sum :: "float list \<Rightarrow> float" where
  "divide_and_conquer_sum gs =
     (if length gs = 0 then f_zero
      else if length gs = 1 then gs ! 0
      else fadd (divide_and_conquer_sum (take (length gs div 2) gs))
                (divide_and_conquer_sum (drop (length gs div 2) gs)))"
  by pat_completeness auto
termination
  by (relation "measure length") (auto simp: neq_Nil_conv)

declare divide_and_conquer_sum.simps [simp del]

definition sequential_sum :: "float list \<Rightarrow> float" where
  "sequential_sum gs = foldl fadd f_zero gs"

text \<open>The arithmetic mean of the specification, within floating-point tolerance: \<open>a\<close> is a
  finite float that differs from the sum of the grades divided by their number \<open>n\<close> by at
  most \<open>2 ^ -17\<close> of the mean absolute value of the grades, plus the smallest positive
  float. In units of \<open>2 ^ -149\<close> and multiplied by \<open>n\<close>, the difference is \<open>a * n - sum\<close>
  and the bound is the sum of the absolute values over \<open>2 ^ 17\<close>, plus \<open>n\<close>.\<close>

definition mean_within_tolerance :: "float \<Rightarrow> float list \<Rightarrow> bool" where
  "mean_within_tolerance a gs =
     (is_finite a \<and>
      2 ^ 17 * \<bar>fval a * int (length gs) - exact_sum gs\<bar>
        \<le> magnitude_sum gs + 2 ^ 17 * int (length gs))"

section \<open>Example records\<close>

definition student_ex :: "c_int \<Rightarrow> float \<Rightarrow> Student" where
  "student_ex i a = \<lparr>id_st = i, name = ''s'', grades = [], average = a\<rparr>"

section \<open>The store: lookup, insertion, deletion\<close>


lemma index_of_id_loop_absent:
  "i_d \<notin> id_st ` set (drop i students) \<Longrightarrow> index_of_id_loop students i_d i = - 1"
proof (induction students i_d i rule: index_of_id_loop.induct)
  case (1 students i_d i)
  show ?case
  proof (cases "i < length students")
    case True
    then have d: "drop i students = students ! i # drop (Suc i) students"
      by (simp add: Cons_nth_drop_Suc)
    with 1 True show ?thesis
      by (subst index_of_id_loop.simps) auto
  next
    case False
    then show ?thesis by (subst index_of_id_loop.simps) simp
  qed
qed

lemma index_of_id_loop_present:
  "i \<le> k \<Longrightarrow> k < length students \<Longrightarrow> id_st (students ! k) = i_d \<Longrightarrow>
   \<forall>j. i \<le> j \<and> j < k \<longrightarrow> id_st (students ! j) \<noteq> i_d \<Longrightarrow>
   index_of_id_loop students i_d i = int k"
proof (induction students i_d i rule: index_of_id_loop.induct)
  case (1 students i_d i)
  show ?case
  proof (cases "i = k")
    case True
    with 1 show ?thesis by (subst index_of_id_loop.simps) simp
  next
    case False
    with 1 have "i < k" "id_st (students ! i) \<noteq> i_d" "i < length students" by auto
    with 1 show ?thesis by (subst index_of_id_loop.simps) auto
  qed
qed

lemma first_index_ex:
  "i_d \<in> id_st ` set students \<Longrightarrow>
   \<exists>k<length students. id_st (students ! k) = i_d \<and> (\<forall>j<k. id_st (students ! j) \<noteq> i_d)"
proof -
  assume "i_d \<in> id_st ` set students"
  then obtain m where m: "m < length students" "id_st (students ! m) = i_d"
    by (auto simp: in_set_conv_nth)
  define k where "k = (LEAST n. n < length students \<and> id_st (students ! n) = i_d)"
  have k: "k < length students \<and> id_st (students ! k) = i_d"
    unfolding k_def by (rule LeastI [of _ m]) (simp add: m)
  have "\<forall>j<k. id_st (students ! j) \<noteq> i_d"
  proof (intro allI impI notI)
    fix j assume "j < k" "id_st (students ! j) = i_d"
    then have "k \<le> j" unfolding k_def using k by (intro Least_le) (auto simp: k_def)
    with \<open>j < k\<close> show False by simp
  qed
  with k show ?thesis by blast
qed

lemma index_of_id_absent: "i_d \<notin> id_st ` set students \<Longrightarrow> index_of_id students i_d = - 1"
  by (simp add: index_of_id_def index_of_id_loop_absent)

lemma index_of_id_first:
  "k < length students \<Longrightarrow> id_st (students ! k) = i_d \<Longrightarrow>
   \<forall>j<k. id_st (students ! j) \<noteq> i_d \<Longrightarrow> index_of_id students i_d = int k"
  by (simp add: index_of_id_def index_of_id_loop_present)

lemma index_of_id_minus1_iff: "index_of_id students i_d = - 1 \<longleftrightarrow> i_d \<notin> id_st ` set students"
proof
  assume a: "index_of_id students i_d = - 1"
  show "i_d \<notin> id_st ` set students"
  proof
    assume "i_d \<in> id_st ` set students"
    from first_index_ex [OF this] obtain k where
      "k < length students" "id_st (students ! k) = i_d" "\<forall>j<k. id_st (students ! j) \<noteq> i_d"
      by blast
    then have "index_of_id students i_d = int k" by (rule index_of_id_first)
    with a show False by simp
  qed
qed (rule index_of_id_absent)

lemma shift_left_eq:
  "i < length students \<Longrightarrow>
   shift_left students i = take i students @ drop (Suc i) students @ [last students]"
proof (induction students i rule: shift_left.induct)
  case (1 students i)
  show ?case
  proof (cases "i + 1 < length students")
    case True
    let ?s = "students[i := students ! (i + 1)]"
    have "shift_left students i = shift_left ?s (i + 1)"
      using True by (subst shift_left.simps) simp
    also have "\<dots> = take (i + 1) ?s @ drop (Suc (i + 1)) ?s @ [last ?s]"
      using 1 True by simp
    also have "take (i + 1) ?s = take i students @ [students ! (i + 1)]"
      using True by (simp add: take_Suc_conv_app_nth)
    also have "drop (Suc (i + 1)) ?s = drop (Suc (i + 1)) students"
      by simp
    also have "last ?s = last students"
    proof -
      from True have "students \<noteq> []" by auto
      with True show ?thesis by (simp add: last_list_update)
    qed
    finally show ?thesis
      using True by (simp add: Cons_nth_drop_Suc)
  next
    case False
    with 1 have "Suc i = length students" by simp
    then have "students = take i students @ [last students]"
      by (metis "1.prems" Suc_leI append_butlast_last_id butlast_conv_take diff_Suc_1 length_greater_0_conv less_nat_zero_code list.size(3))
    with False \<open>Suc i = length students\<close> show ?thesis
      by (subst shift_left.simps) simp
  qed
qed

text \<open>C6: \<open>delete_student\<close> returns false and leaves the store as it is when the id is
  absent; otherwise it returns true and the store is the old one without the first record of
  that id (index \<open>k\<close>), every later record one place to the left, the others in their old
  order.\<close>

theorem delete_student_shift:
  "(i_d \<notin> id_st ` set students \<longrightarrow> delete_student students i_d = (False, students)) \<and>
   (i_d \<in> id_st ` set students \<longrightarrow>
      (\<exists>k<length students. id_st (students ! k) = i_d \<and> (\<forall>j<k. id_st (students ! j) \<noteq> i_d) \<and>
         delete_student students i_d = (True, take k students @ drop (Suc k) students)))"
proof (intro conjI impI)
  assume "i_d \<notin> id_st ` set students"
  then show "delete_student students i_d = (False, students)"
    by (simp add: delete_student_def index_of_id_absent)
next
  assume "i_d \<in> id_st ` set students"
  from first_index_ex [OF this] obtain k where
    k: "k < length students" "id_st (students ! k) = i_d" "\<forall>j<k. id_st (students ! j) \<noteq> i_d"
    by blast
  then have idx: "index_of_id students i_d = int k" by (rule index_of_id_first)
  have "butlast (shift_left students k) = take k students @ drop (Suc k) students"
    using k(1) by (simp add: shift_left_eq butlast_append)
  then have "delete_student students i_d = (True, take k students @ drop (Suc k) students)"
    by (simp add: delete_student_def idx)
  with k show "\<exists>k<length students. id_st (students ! k) = i_d \<and> (\<forall>j<k. id_st (students ! j) \<noteq> i_d) \<and>
         delete_student students i_d = (True, take k students @ drop (Suc k) students)"
    by blast
qed

theorem delete_student_shift_witness:
  "delete_student [student_ex 1 0, student_ex 2 0, student_ex 3 0] 2
     = (True, [student_ex 1 0, student_ex 3 0]) \<and>
   delete_student [student_ex 1 0, student_ex 2 0, student_ex 3 0] 7
     = (False, [student_ex 1 0, student_ex 2 0, student_ex 3 0])"
  using delete_student_shift [of 2 "[student_ex 1 0, student_ex 2 0, student_ex 3 0]"]
    delete_student_shift [of 7 "[student_ex 1 0, student_ex 2 0, student_ex 3 0]"]
  by (auto simp: student_ex_def less_Suc_eq)

section \<open>Binary search\<close>

lemma sint_inject: "sint (a :: c_int) = sint b \<Longrightarrow> a = b"
  by (rule signed_word_eqI)

lemma sorted_ids_nth:
  "sorted (map (\<lambda>s. sint (id_st s)) students) \<Longrightarrow> i \<le> j \<Longrightarrow> j < length students \<Longrightarrow>
   sint (id_st (students ! i)) \<le> sint (id_st (students ! j))"
  using sorted_nth_mono [of "map (\<lambda>s. sint (id_st s)) students" i j] by simp

lemma binary_search_post:
  "sorted (map (\<lambda>s. sint (id_st s)) students) \<Longrightarrow> 0 \<le> left \<Longrightarrow> right < int (length students) \<Longrightarrow>
   bs_post students t left right (binary_search_by_id_recursive students t left right)"
proof (induction students t left right rule: binary_search_by_id_recursive.induct)
  case (1 students t left right)
  show ?case
  proof (cases "right < left")
    case True
    then show ?thesis
      by (subst binary_search_by_id_recursive.simps) (auto simp: bs_post_def)
  next
    case False
    define mid where "mid = left + (right - left) div 2"
    have mid: "left \<le> mid" "mid \<le> right" "0 \<le> mid" "mid < int (length students)"
      using False 1(4,5) by (auto simp: mid_def)
    show ?thesis
    proof (cases "id_st (students ! nat mid) = t")
      case True
      then have "binary_search_by_id_recursive students t left right = Some mid"
        using False mid by (subst binary_search_by_id_recursive.simps) (simp add: mid_def Let_def)
      with True mid show ?thesis by (simp add: bs_post_def)
    next
      case ne: False
      show ?thesis
      proof (cases "sint t < sint (id_st (students ! nat mid))")
        case True
        have eq: "binary_search_by_id_recursive students t left right =
                  binary_search_by_id_recursive students t left (mid - 1)"
          using False mid ne True
          by (subst binary_search_by_id_recursive.simps) (simp add: mid_def Let_def)
        have ih: "bs_post students t left (mid - 1)
                    (binary_search_by_id_recursive students t left (mid - 1))"
          using "1.IH"(1) [OF False mid_def _ ne True] False mid ne True 1(3,4) by simp
        have above: "id_st (students ! nat i) \<noteq> t" if "mid \<le> i" "i \<le> right" for i
        proof -
          have "sint (id_st (students ! nat mid)) \<le> sint (id_st (students ! nat i))"
            using that mid 1(5) by (intro sorted_ids_nth [OF 1(3)]) auto
          with True show ?thesis by auto
        qed
        show ?thesis
          unfolding eq using ih above mid
          by (auto simp: bs_post_def split: option.splits)
            (metis linorder_not_less zle_diff1_eq)+
      next
        case gt: False
        have eq: "binary_search_by_id_recursive students t left right =
                  binary_search_by_id_recursive students t (mid + 1) right"
          using False mid ne gt
          by (subst binary_search_by_id_recursive.simps) (simp add: mid_def Let_def)
        have ih: "bs_post students t (mid + 1) right
                    (binary_search_by_id_recursive students t (mid + 1) right)"
          using "1.IH"(2) [OF False mid_def _ ne gt] False mid ne gt 1(3,5) by simp
        have lt: "sint (id_st (students ! nat mid)) < sint t"
          using ne gt sint_inject [of "id_st (students ! nat mid)" t] by force
        have below: "id_st (students ! nat i) \<noteq> t" if "left \<le> i" "i \<le> mid" for i
        proof -
          have "sint (id_st (students ! nat i)) \<le> sint (id_st (students ! nat mid))"
            using that mid 1(4) by (intro sorted_ids_nth [OF 1(3)]) auto
          with lt show ?thesis by auto
        qed
        show ?thesis
          unfolding eq using ih below mid
          by (auto simp: bs_post_def split: option.splits)
            (metis linorder_not_less add1_zle_eq)+
      qed
    qed
  qed
qed

text \<open>C3: on a store sorted ascending by id, the search over the whole array returns an index
  holding the target when the target is present and the sentinel \<open>-1\<close> when it is not. An
  empty interval gives the sentinel at once, and on any interval inside the array the sentinel
  is returned exactly when no index of the interval holds the target, that is, when the
  recursion has narrowed the interval to an empty one.\<close>

theorem binary_search_sorted:
  assumes "sorted (map (\<lambda>s. sint (id_st s)) students)"
  shows "(t \<in> id_st ` set students \<longrightarrow>
           (\<exists>i<length students.
              binary_search_by_id_recursive students t 0 (int (length students) - 1) = Some (int i) \<and>
              id_st (students ! i) = t)) \<and>
         (t \<notin> id_st ` set students \<longrightarrow>
           binary_search_by_id_recursive students t 0 (int (length students) - 1) = Some (- 1)) \<and>
         (\<forall>left right. right < left \<longrightarrow>
           binary_search_by_id_recursive students t left right = Some (- 1)) \<and>
         (\<forall>left right. 0 \<le> left \<and> right < int (length students) \<longrightarrow>
           (binary_search_by_id_recursive students t left right = Some (- 1)) =
           (\<forall>i. left \<le> i \<and> i \<le> right \<longrightarrow> id_st (students ! nat i) \<noteq> t))"
proof (intro conjI impI allI)
  let ?r = "binary_search_by_id_recursive students t 0 (int (length students) - 1)"
  have post: "bs_post students t 0 (int (length students) - 1) ?r"
    using assms by (intro binary_search_post) auto
  {
    assume "t \<in> id_st ` set students"
    then obtain k where k: "k < length students" "id_st (students ! k) = t"
      by (auto simp: in_set_conv_nth)
    then have "\<not> (\<forall>i. 0 \<le> i \<and> i \<le> int (length students) - 1 \<longrightarrow> id_st (students ! nat i) \<noteq> t)"
      by (auto intro!: exI [of _ "int k"])
    with post obtain r where r: "?r = Some r" "0 \<le> r" "r \<le> int (length students) - 1"
      "id_st (students ! nat r) = t"
      by (auto simp: bs_post_def split: option.splits)
    then show "\<exists>i<length students. ?r = Some (int i) \<and> id_st (students ! i) = t"
      by (intro exI [of _ "nat r"]) auto
  }
  {
    assume "t \<notin> id_st ` set students"
    have "id_st (students ! nat r) \<noteq> t" if "0 \<le> r" "r \<le> int (length students) - 1" for r
    proof -
      have "students ! nat r \<in> set students"
        using that by (intro nth_mem) auto
      with \<open>t \<notin> id_st ` set students\<close> show ?thesis by auto
    qed
    with post show "?r = Some (- 1)"
      by (auto simp: bs_post_def split: option.splits)
  }
  {
    fix left right :: int
    assume "right < left"
    then show "binary_search_by_id_recursive students t left right = Some (- 1)"
      by (subst binary_search_by_id_recursive.simps) simp
  }
  {
    fix left right :: int
    assume "0 \<le> left \<and> right < int (length students)"
    then have "bs_post students t left right (binary_search_by_id_recursive students t left right)"
      using assms by (intro binary_search_post) auto
    then show "(binary_search_by_id_recursive students t left right = Some (- 1)) =
           (\<forall>i. left \<le> i \<and> i \<le> right \<longrightarrow> id_st (students ! nat i) \<noteq> t)"
      using \<open>0 \<le> left \<and> right < int (length students)\<close>
      by (auto simp: bs_post_def split: option.splits)
  }
qed

theorem binary_search_sorted_witness:
  "sorted (map (\<lambda>s. sint (id_st s)) [student_ex 1 0, student_ex 3 0, student_ex 5 0]) \<and>
   binary_search_by_id_recursive [student_ex 1 0, student_ex 3 0, student_ex 5 0] 3 0 2 = Some 1 \<and>
   binary_search_by_id_recursive [student_ex 1 0, student_ex 3 0, student_ex 5 0] 4 0 2 = Some (- 1)"
proof -
  let ?s = "[student_ex 1 0, student_ex 3 0, student_ex 5 0]"
  have srt: "sorted (map (\<lambda>s. sint (id_st s)) ?s)"
    by (simp add: student_ex_def)
  show ?thesis
    using srt binary_search_sorted [OF srt, of 3] binary_search_sorted [OF srt, of 4]
    by (auto simp: student_ex_def less_Suc_eq)
qed

section \<open>Highest and lowest average\<close>

lemma fle_refl: "\<not> is_nan a \<Longrightarrow> fle a a"
  by (simp add: fle_def)

lemma not_fgt_fle: "\<not> is_nan a \<Longrightarrow> \<not> is_nan b \<Longrightarrow> \<not> fgt a b \<Longrightarrow> fle a b"
  by (auto simp: fle_def fgt_def flt_def)

lemma not_flt_fle: "\<not> is_nan a \<Longrightarrow> \<not> is_nan b \<Longrightarrow> \<not> flt a b \<Longrightarrow> fle b a"
  by (auto simp: fle_def flt_def)

lemma fle_flt_trans: "fle a b \<Longrightarrow> flt b c \<Longrightarrow> flt a c"
  by (auto simp: fle_def flt_def)

lemma flt_fle_trans: "flt a b \<Longrightarrow> fle b c \<Longrightarrow> flt a c"
  by (auto simp: fle_def flt_def)

lemma flt_fle: "flt a b \<Longrightarrow> fle a b"
  by (auto simp: fle_def flt_def)

lemma flt_trans: "flt a b \<Longrightarrow> flt b c \<Longrightarrow> flt a c"
  by (auto simp: flt_def)

lemma highest_lowest_loop_inv:
  "hl_inv students i r \<Longrightarrow> i \<le> length students \<Longrightarrow>
   hl_inv students (length students) (highest_lowest_loop students i r)"
proof (induction students i r rule: highest_lowest_loop.induct)
  case (1 students i highest h_idx lowest l_idx)
  show ?case
  proof (cases "i < length students")
    case False
    with 1(3) have "i = length students" by simp
    with 1(2) False show ?thesis
      by (subst highest_lowest_loop.simps) simp
  next
    case True
    define a where "a = average (students ! i)"
    define hp where "hp = (if fgt a highest then (a, i) else (highest, h_idx))"
    define lp where "lp = (if flt a lowest then (a, i) else (lowest, l_idx))"
    from 1(2) have basic:
      "h_idx < i" "l_idx < i"
      "highest = average (students ! h_idx)" "lowest = average (students ! l_idx)"
      by (auto simp: hl_inv_def)
    have h1: "snd hp < i + 1" "fst hp = average (students ! snd hp)"
      using basic by (auto simp: hp_def a_def)
    have l1: "snd lp < i + 1" "fst lp = average (students ! snd lp)"
      using basic by (auto simp: lp_def a_def)
    have ord: "\<not> is_nan (fst hp) \<and> \<not> is_nan (fst lp) \<and>
         (\<forall>j<Suc i. \<not> is_nan (average (students ! j)) \<longrightarrow>
              fle (average (students ! j)) (fst hp)) \<and>
         (\<forall>j < snd hp. \<not> is_nan (average (students ! j)) \<longrightarrow>
              flt (average (students ! j)) (fst hp)) \<and>
         (\<forall>j<Suc i. \<not> is_nan (average (students ! j)) \<longrightarrow>
              fle (fst lp) (average (students ! j))) \<and>
         (\<forall>j < snd lp. \<not> is_nan (average (students ! j)) \<longrightarrow>
              flt (fst lp) (average (students ! j)))"
      if first: "\<not> is_nan (average (students ! 0))"
    proof -
      from 1(2) first have inv:
        "\<not> is_nan highest" "\<not> is_nan lowest"
        "\<forall>j<i. \<not> is_nan (average (students ! j)) \<longrightarrow> fle (average (students ! j)) highest"
        "\<forall>j<h_idx. \<not> is_nan (average (students ! j)) \<longrightarrow> flt (average (students ! j)) highest"
        "\<forall>j<i. \<not> is_nan (average (students ! j)) \<longrightarrow> fle lowest (average (students ! j))"
        "\<forall>j<l_idx. \<not> is_nan (average (students ! j)) \<longrightarrow> flt lowest (average (students ! j))"
        by (auto simp: hl_inv_def)
      have nhp: "\<not> is_nan (fst hp)"
        using inv(1) by (auto simp: hp_def fgt_def flt_def)
      have nlp: "\<not> is_nan (fst lp)"
        using inv(2) by (auto simp: lp_def flt_def)
      have h2: "fle (average (students ! j)) (fst hp)"
        if "j < i + 1" "\<not> is_nan (average (students ! j))" for j
      proof (cases "fgt a highest")
        case True
        then have "flt highest a" by (simp add: fgt_def)
        show ?thesis
        proof (cases "j = i")
          case True
          then show ?thesis using \<open>fgt a highest\<close> that(2) by (simp add: hp_def a_def fle_refl)
        next
          case False
          with that have "fle (average (students ! j)) highest" using inv(3) by simp
          with \<open>flt highest a\<close> show ?thesis
            using \<open>fgt a highest\<close> by (simp add: hp_def fle_flt_trans flt_fle)
        qed
      next
        case False
        show ?thesis
        proof (cases "j = i")
          case True
          then show ?thesis using False that(2) inv(1) by (simp add: hp_def a_def not_fgt_fle)
        next
          case ne: False
          with that show ?thesis using False inv(3) by (simp add: hp_def)
        qed
      qed
      have h3: "flt (average (students ! j)) (fst hp)"
        if "j < snd hp" "\<not> is_nan (average (students ! j))" for j
      proof (cases "fgt a highest")
        case True
        then have "flt highest a" by (simp add: fgt_def)
        moreover from that True have "fle (average (students ! j)) highest"
          using inv(3) by (simp add: hp_def)
        ultimately show ?thesis using True by (simp add: hp_def fle_flt_trans)
      next
        case False
        with that show ?thesis using inv(4) by (simp add: hp_def)
      qed
      have l2: "fle (fst lp) (average (students ! j))"
        if "j < i + 1" "\<not> is_nan (average (students ! j))" for j
      proof (cases "flt a lowest")
        case True
        show ?thesis
        proof (cases "j = i")
          case True
          then show ?thesis using \<open>flt a lowest\<close> that(2) by (simp add: lp_def a_def fle_refl)
        next
          case False
          with that have "fle lowest (average (students ! j))" using inv(5) by simp
          with True show ?thesis
            by (simp add: lp_def flt_fle_trans flt_fle)
        qed
      next
        case False
        show ?thesis
        proof (cases "j = i")
          case True
          then show ?thesis using False that(2) inv(2) by (simp add: lp_def a_def not_flt_fle)
        next
          case ne: False
          with that show ?thesis using False inv(5) by (simp add: lp_def)
        qed
      qed
      have l3: "flt (fst lp) (average (students ! j))"
        if "j < snd lp" "\<not> is_nan (average (students ! j))" for j
      proof (cases "flt a lowest")
        case True
        moreover from that True have "fle lowest (average (students ! j))"
          using inv(5) by (simp add: lp_def)
        ultimately show ?thesis by (simp add: lp_def flt_fle_trans)
      next
        case False
        with that show ?thesis using inv(6) by (simp add: lp_def)
      qed
      show ?thesis
        using nhp nlp h2 h3 l2 l3 by simp
    qed
    have step: "hl_inv students (i + 1) (fst hp, snd hp, fst lp, snd lp)"
      unfolding hl_inv_def using h1 l1 ord by simp
    have unfold: "highest_lowest_loop students i (highest, h_idx, lowest, l_idx) =
          highest_lowest_loop students (i + 1) (fst hp, snd hp, fst lp, snd lp)"
      using True
      by (subst highest_lowest_loop.simps) (simp add: hp_def lp_def a_def Let_def split: prod.splits)
    have "hl_inv students (length students)
            (highest_lowest_loop students (i + 1) (fst hp, snd hp, fst lp, snd lp))"
      using "1.IH" [OF True refl refl prod.collapse refl prod.collapse] step True
      unfolding hp_def lp_def a_def by simp
    with unfold show ?thesis by simp
  qed
qed

lemmas float_cmp_eval = flt_def fgt_def fle_def is_nan_def f_inf_bits_def fval_def fsign_def
  funits_def units_of_bits_def fmag_def

text \<open>C7 fails on the code: \<open>class_highest_lowest\<close> is to find the students with the
  highest and the lowest average. The scan starts from the average of record 0 and replaces
  it only by an average that compares greater (or less), and every comparison with a NaN is
  false. A NaN average in record 0 is therefore returned as the highest and as the lowest
  average whatever the other records hold, while a NaN in any later record is passed over.
  For the averages NaN, 5 the call returns NaN at index 0 twice, although 5 in record 1 is
  the only number; for 5, NaN, 7 it returns 7 at index 2 and 5 at index 0.\<close>

theorem class_highest_lowest_first_nan:
  "class_highest_lowest [student_ex 1 0x7FC00000, student_ex 2 0x40A00000]
     = Some (0x7FC00000, 0, 0x7FC00000, 0) \<and>
   is_nan 0x7FC00000 \<and> \<not> is_nan 0x40A00000 \<and>
   class_highest_lowest
     [student_ex 1 0x40A00000, student_ex 2 0x7FC00000, student_ex 3 0x40E00000]
     = Some (0x40E00000, 2, 0x40A00000, 0)"
  by (simp add: class_highest_lowest_def highest_lowest_loop.simps student_ex_def float_cmp_eval)

text \<open>What the scan does return: false (\<open>None\<close>) on the empty store and true on every
  other store, with each returned value the average of the record at the returned index.
  When the average of record 0 is not NaN, neither value is NaN, the highest value is at
  least every average that is not NaN and strictly above every such average before its
  index, and the lowest value is at most every such average and strictly below every such
  average before its index: the first record with the extreme average wins.\<close>

lemma class_highest_lowest_extremes:
  "(students = [] \<longrightarrow> class_highest_lowest students = None) \<and>
   (students \<noteq> [] \<longrightarrow>
      (\<exists>highest h_idx lowest l_idx.
         class_highest_lowest students = Some (highest, h_idx, lowest, l_idx) \<and>
         h_idx < length students \<and> l_idx < length students \<and>
         highest = average (students ! h_idx) \<and> lowest = average (students ! l_idx) \<and>
         (\<not> is_nan (average (students ! 0)) \<longrightarrow>
            \<not> is_nan highest \<and> \<not> is_nan lowest \<and>
            (\<forall>j<length students. \<not> is_nan (average (students ! j)) \<longrightarrow>
                 fle (average (students ! j)) highest) \<and>
            (\<forall>j<h_idx. \<not> is_nan (average (students ! j)) \<longrightarrow>
                 flt (average (students ! j)) highest) \<and>
            (\<forall>j<length students. \<not> is_nan (average (students ! j)) \<longrightarrow>
                 fle lowest (average (students ! j))) \<and>
            (\<forall>j<l_idx. \<not> is_nan (average (students ! j)) \<longrightarrow>
                 flt lowest (average (students ! j))))))"
proof (intro conjI impI)
  assume "students = []"
  then show "class_highest_lowest students = None"
    by (simp add: class_highest_lowest_def)
next
  assume ne: "students \<noteq> []"
  let ?a = "average (students ! 0)"
  have "hl_inv students 1 (?a, 0, ?a, 0)"
    using ne by (auto simp: hl_inv_def fle_refl)
  then have "hl_inv students (length students) (highest_lowest_loop students 1 (?a, 0, ?a, 0))"
    using ne by (intro highest_lowest_loop_inv) (auto simp: Suc_le_eq)
  moreover have "class_highest_lowest students = Some (highest_lowest_loop students 1 (?a, 0, ?a, 0))"
    using ne by (simp add: class_highest_lowest_def)
  ultimately show "\<exists>highest h_idx lowest l_idx.
         class_highest_lowest students = Some (highest, h_idx, lowest, l_idx) \<and>
         h_idx < length students \<and> l_idx < length students \<and>
         highest = average (students ! h_idx) \<and> lowest = average (students ! l_idx) \<and>
         (\<not> is_nan (average (students ! 0)) \<longrightarrow>
            \<not> is_nan highest \<and> \<not> is_nan lowest \<and>
            (\<forall>j<length students. \<not> is_nan (average (students ! j)) \<longrightarrow>
                 fle (average (students ! j)) highest) \<and>
            (\<forall>j<h_idx. \<not> is_nan (average (students ! j)) \<longrightarrow>
                 flt (average (students ! j)) highest) \<and>
            (\<forall>j<length students. \<not> is_nan (average (students ! j)) \<longrightarrow>
                 fle lowest (average (students ! j))) \<and>
            (\<forall>j<l_idx. \<not> is_nan (average (students ! j)) \<longrightarrow>
                 flt lowest (average (students ! j))))"
    by (cases "highest_lowest_loop students 1 (?a, 0, ?a, 0)") (simp add: hl_inv_def)
qed

section \<open>Bubble sort\<close>

lemma swap_adjacent:
  "Suc j < length xs \<Longrightarrow>
   swap_students xs j (Suc j) = take j xs @ xs ! Suc j # xs ! j # drop (Suc (Suc j)) xs"
proof (induction xs arbitrary: j)
  case Nil
  then show ?case by simp
next
  case (Cons x xs)
  show ?case
  proof (cases j)
    case 0
    with Cons.prems show ?thesis
      by (cases xs) (simp_all add: swap_students_def)
  next
    case (Suc k)
    with Cons.prems have "Suc k < length xs" by simp
    from Cons.IH [OF this] Suc show ?thesis
      by (simp add: swap_students_def)
  qed
qed

lemma adjacent_split:
  "Suc j < length xs \<Longrightarrow> xs = take j xs @ xs ! j # xs ! Suc j # drop (Suc (Suc j)) xs"
  by (metis Cons_nth_drop_Suc Suc_lessD append_take_drop_id)

lemma swap_length [simp]: "length (swap_students xs a b) = length xs"
  by (simp add: swap_students_def)

lemma swap_mset: "a < length xs \<Longrightarrow> b < length xs \<Longrightarrow> mset (swap_students xs a b) = mset xs"
  by (simp add: swap_students_def mset_swap)

lemma swap_filter:
  assumes "Suc j < length xs" "\<not> (P (xs ! j) \<and> P (xs ! Suc j))"
  shows "filter P (swap_students xs j (Suc j)) = filter P xs"
proof -
  have "filter P (swap_students xs j (Suc j)) =
        filter P (take j xs) @ filter P [xs ! Suc j, xs ! j] @ filter P (drop (Suc (Suc j)) xs)"
    by (simp add: swap_adjacent [OF assms(1)])
  also have "filter P [xs ! Suc j, xs ! j] = filter P [xs ! j, xs ! Suc j]"
    using assms(2) by auto
  also have "filter P (take j xs) @ filter P [xs ! j, xs ! Suc j] @ filter P (drop (Suc (Suc j)) xs)
             = filter P (take j xs @ xs ! j # xs ! Suc j # drop (Suc (Suc j)) xs)"
    by simp
  also have "\<dots> = filter P xs"
    using adjacent_split [OF assms(1)] by simp
  finally show ?thesis .
qed

lemma bubble_inner_length:
  "length (fst (bubble_inner key xs j lim sw)) = length xs"
proof (induction key xs j lim sw rule: bubble_inner.induct)
  case (1 key xs j lim sw)
  then show ?case
    by (subst bubble_inner.simps) simp
qed

lemma bubble_inner_mset:
  "lim < length xs \<Longrightarrow> mset (fst (bubble_inner key xs j lim sw)) = mset xs"
proof (induction key xs j lim sw rule: bubble_inner.induct)
  case (1 key xs j lim sw)
  then show ?case
    by (subst bubble_inner.simps) (simp add: swap_mset)
qed

lemma bubble_inner_filter:
  "lim < length xs \<Longrightarrow>
   \<forall>x\<in>set xs. \<forall>y\<in>set xs. P x \<and> P y \<longrightarrow> \<not> 0 < cmp_students x y key \<Longrightarrow>
   filter P (fst (bubble_inner key xs j lim sw)) = filter P xs"
proof (induction key xs j lim sw rule: bubble_inner.induct)
  case (1 key xs j lim sw)
  show ?case
  proof (cases "j < lim")
    case False
    then show ?thesis by (subst bubble_inner.simps) simp
  next
    case True
    with 1(3) have j: "Suc j < length xs" by simp
    show ?thesis
    proof (cases "0 < cmp_students (xs ! j) (xs ! (j + 1)) key")
      case gt: True
      let ?ys = "swap_students xs j (j + 1)"
      have "\<not> (P (xs ! j) \<and> P (xs ! Suc j))"
        using gt 1(4) j by (metis Suc_eq_plus1 Suc_lessD nth_mem)
      then have f: "filter P ?ys = filter P xs"
        using j by (simp add: swap_filter)
      have "set ?ys = set xs"
        using j by (metis Suc_eq_plus1 Suc_lessD mset_eq_setD swap_mset)
      with 1(4) have "\<forall>x\<in>set ?ys. \<forall>y\<in>set ?ys. P x \<and> P y \<longrightarrow> \<not> 0 < cmp_students x y key"
        by simp
      with "1.IH"(1) [OF True gt] 1(3) have "filter P (fst (bubble_inner key ?ys (j + 1) lim True)) = filter P ?ys"
        by simp
      with f True gt show ?thesis
        by (subst bubble_inner.simps) simp
    next
      case False
      with "1.IH"(2) [OF True False] 1(3,4) True show ?thesis
        by (subst bubble_inner.simps) simp
    qed
  qed
qed

lemma bubble_outer_length:
  "length (bubble_outer key n xs i) = length xs"
proof (induction key n xs i rule: bubble_outer.induct)
  case (1 key n xs i)
  show ?case
  proof (cases "i < n - 1")
    case False
    then show ?thesis by (subst bubble_outer.simps) simp
  next
    case True
    obtain ys sw where r: "bubble_inner key xs 0 (n - 1 - i) False = (ys, sw)"
      by (cases "bubble_inner key xs 0 (n - 1 - i) False")
    then have l: "length ys = length xs"
      using bubble_inner_length [of key xs 0 "n - 1 - i" False] by simp
    show ?thesis
    proof (cases sw)
      case True
      with "1.IH" [OF \<open>i < n - 1\<close> r [symmetric]] l r \<open>i < n - 1\<close> show ?thesis
        by (subst bubble_outer.simps) simp
    next
      case False
      with l r True show ?thesis
        by (subst bubble_outer.simps) simp
    qed
  qed
qed

lemma bubble_outer_mset:
  "n = length xs \<Longrightarrow> mset (bubble_outer key n xs i) = mset xs"
proof (induction key n xs i rule: bubble_outer.induct)
  case (1 key n xs i)
  show ?case
  proof (cases "i < n - 1")
    case False
    then show ?thesis by (subst bubble_outer.simps) simp
  next
    case True
    obtain ys sw where r: "bubble_inner key xs 0 (n - 1 - i) False = (ys, sw)"
      by (cases "bubble_inner key xs 0 (n - 1 - i) False")
    have lim: "n - 1 - i < length xs" using True 1(2) by simp
    have l: "length ys = length xs"
      using bubble_inner_length [of key xs 0 "n - 1 - i" False] r by simp
    have m: "mset ys = mset xs"
      using bubble_inner_mset [OF lim, of key 0 False] r by simp
    show ?thesis
    proof (cases sw)
      case True
      with "1.IH" [OF \<open>i < n - 1\<close> r [symmetric]] l m r 1(2) \<open>i < n - 1\<close> show ?thesis
        by (subst bubble_outer.simps) simp
    next
      case False
      with m r True show ?thesis
        by (subst bubble_outer.simps) simp
    qed
  qed
qed

lemma bubble_outer_filter:
  "n = length xs \<Longrightarrow>
   \<forall>x\<in>set xs. \<forall>y\<in>set xs. P x \<and> P y \<longrightarrow> \<not> 0 < cmp_students x y key \<Longrightarrow>
   filter P (bubble_outer key n xs i) = filter P xs"
proof (induction key n xs i rule: bubble_outer.induct)
  case (1 key n xs i)
  show ?case
  proof (cases "i < n - 1")
    case False
    then show ?thesis by (subst bubble_outer.simps) simp
  next
    case True
    obtain ys sw where r: "bubble_inner key xs 0 (n - 1 - i) False = (ys, sw)"
      by (cases "bubble_inner key xs 0 (n - 1 - i) False")
    have lim: "n - 1 - i < length xs" using True 1(2) by simp
    have l: "length ys = length xs"
      using bubble_inner_length [of key xs 0 "n - 1 - i" False] r by simp
    have m: "mset ys = mset xs"
      using bubble_inner_mset [OF lim, of key 0 False] r by simp
    then have s: "set ys = set xs" by (rule mset_eq_setD)
    have f: "filter P ys = filter P xs"
      using bubble_inner_filter [OF lim 1(3), of 0 False] r by simp
    show ?thesis
    proof (cases sw)
      case True
      with "1.IH" [OF \<open>i < n - 1\<close> r [symmetric]] l f s r 1(2,3) \<open>i < n - 1\<close> show ?thesis
        by (subst bubble_outer.simps) simp
    next
      case False
      with f r True show ?thesis
        by (subst bubble_outer.simps) simp
    qed
  qed
qed

lemma swap_set: "a < length xs \<Longrightarrow> b < length xs \<Longrightarrow> set (swap_students xs a b) = set xs"
  by (metis mset_eq_setD swap_mset)

lemma swap_nth:
  "a < length xs \<Longrightarrow> b < length xs \<Longrightarrow>
   swap_students xs a b ! k = (if k = b then xs ! a else if k = a then xs ! b else xs ! k)"
  by (simp add: swap_students_def nth_list_update)

lemma swap_drop: "a \<le> m \<Longrightarrow> b \<le> m \<Longrightarrow> drop (Suc m) (swap_students xs a b) = drop (Suc m) xs"
  by (simp add: swap_students_def)

lemma bubble_inner_drop:
  "drop (Suc lim) (fst (bubble_inner key xs j lim sw)) = drop (Suc lim) xs"
proof (induction key xs j lim sw rule: bubble_inner.induct)
  case (1 key xs j lim sw)
  show ?case
  proof (cases "j < lim")
    case False
    then show ?thesis by (subst bubble_inner.simps) simp
  next
    case True
    then have "drop (Suc lim) (swap_students xs j (j + 1)) = drop (Suc lim) xs"
      by (intro swap_drop) auto
    with 1 True show ?thesis
      by (subst bubble_inner.simps) simp
  qed
qed

lemma bubble_inner_unswapped:
  "\<not> snd (bubble_inner key xs j lim sw) \<Longrightarrow>
   fst (bubble_inner key xs j lim sw) = xs \<and> \<not> sw \<and>
   (\<forall>k. j \<le> k \<and> k < lim \<longrightarrow> \<not> 0 < cmp_students (xs ! k) (xs ! Suc k) key)"
proof (induction key xs j lim sw rule: bubble_inner.induct)
  case (1 key xs j lim sw)
  show ?case
  proof (cases "j < lim")
    case False
    with 1(3) show ?thesis by (subst bubble_inner.simps, subst (asm) bubble_inner.simps) simp
  next
    case True
    show ?thesis
    proof (cases "0 < cmp_students (xs ! j) (xs ! (j + 1)) key")
      case gt: True
      with True 1(3) have "\<not> snd (bubble_inner key (swap_students xs j (j + 1)) (j + 1) lim True)"
        by (subst (asm) bubble_inner.simps) simp
      from "1.IH"(1) [OF True gt this] show ?thesis by simp
    next
      case False
      with True 1(3) have n: "\<not> snd (bubble_inner key xs (j + 1) lim sw)"
        by (subst (asm) bubble_inner.simps) simp
      from "1.IH"(2) [OF True False n] have ih:
        "fst (bubble_inner key xs (j + 1) lim sw) = xs" "\<not> sw"
        "\<forall>k. j + 1 \<le> k \<and> k < lim \<longrightarrow> \<not> 0 < cmp_students (xs ! k) (xs ! Suc k) key"
        by auto
      have "\<not> 0 < cmp_students (xs ! k) (xs ! Suc k) key" if "j \<le> k" "k < lim" for k
        using that False ih(3) by (cases "k = j") auto
      with ih(1,2) True False show ?thesis
        by (subst bubble_inner.simps) simp
    qed
  qed
qed

lemma bubble_inner_max:
  "comparable key (set xs) \<Longrightarrow> lim < length xs \<Longrightarrow> j \<le> lim \<Longrightarrow>
   \<forall>k\<le>j. key_val key (xs ! k) \<le> key_val key (xs ! j) \<Longrightarrow>
   \<forall>k\<le>lim. key_val key (fst (bubble_inner key xs j lim sw) ! k)
            \<le> key_val key (fst (bubble_inner key xs j lim sw) ! lim)"
proof (induction key xs j lim sw rule: bubble_inner.induct)
  case (1 key xs j lim sw)
  show ?case
  proof (cases "j < lim")
    case False
    with 1(5) have "j = lim" by simp
    with 1(6) show ?thesis by (subst (1 2) bubble_inner.simps) simp
  next
    case True
    with 1(4) have j: "j < length xs" "Suc j < length xs" by auto
    then have mem: "xs ! j \<in> set xs" "xs ! Suc j \<in> set xs" by auto
    have cmp: "(0 < cmp_students (xs ! j) (xs ! Suc j) key) =
               (key_val key (xs ! Suc j) < key_val key (xs ! j))"
      using 1(3) mem by (simp add: comparable_def)
    show ?thesis
    proof (cases "0 < cmp_students (xs ! j) (xs ! (j + 1)) key")
      case gt: True
      let ?ys = "swap_students xs j (j + 1)"
      have c: "comparable key (set ?ys)"
        using 1(3) j by (simp add: swap_set)
      have m: "\<forall>k\<le>j + 1. key_val key (?ys ! k) \<le> key_val key (?ys ! (j + 1))"
        using 1(6) gt cmp j by (auto simp: swap_nth)
      from "1.IH"(1) [OF True gt c _ _ m] 1(4) True
      have "\<forall>k\<le>lim. key_val key (fst (bubble_inner key ?ys (j + 1) lim True) ! k)
            \<le> key_val key (fst (bubble_inner key ?ys (j + 1) lim True) ! lim)"
        by simp
      with True gt show ?thesis
        by (subst (1 2) bubble_inner.simps) simp
    next
      case False
      have m: "\<forall>k\<le>j + 1. key_val key (xs ! k) \<le> key_val key (xs ! (j + 1))"
      proof (intro allI impI)
        fix k assume "k \<le> j + 1"
        show "key_val key (xs ! k) \<le> key_val key (xs ! (j + 1))"
        proof (cases "k = j + 1")
          case True
          then show ?thesis by simp
        next
          case ne: False
          with \<open>k \<le> j + 1\<close> have "k \<le> j" by simp
          with 1(6) have "key_val key (xs ! k) \<le> key_val key (xs ! j)" by simp
          moreover have "key_val key (xs ! j) \<le> key_val key (xs ! (j + 1))"
            using False cmp by simp
          ultimately show ?thesis by simp
        qed
      qed
      from "1.IH"(2) [OF True False 1(3) 1(4) _ m] True
      have "\<forall>k\<le>lim. key_val key (fst (bubble_inner key xs (j + 1) lim sw) ! k)
            \<le> key_val key (fst (bubble_inner key xs (j + 1) lim sw) ! lim)"
        by simp
      with True False show ?thesis
        by (subst (1 2) bubble_inner.simps) simp
    qed
  qed
qed

lemma sorted_adjacent:
  "\<forall>k. Suc k < length ys \<longrightarrow> f (ys ! k) \<le> (f (ys ! Suc k) :: int) \<Longrightarrow> sorted (map f ys)"
  by (simp add: sorted_iff_nth_Suc)

lemma mset_take_from_drop:
  "mset ys = mset xs \<Longrightarrow> drop m ys = drop m xs \<Longrightarrow> mset (take m ys) = mset (take m xs)"
proof -
  assume a: "mset ys = mset xs" "drop m ys = drop m xs"
  have "mset (take m ys) + mset (drop m ys) = mset (take m xs) + mset (drop m xs)"
    using a(1) by (metis append_take_drop_id mset_append)
  with a(2) show ?thesis by simp
qed

lemma bubble_outer_sorted:
  "comparable key (set xs) \<Longrightarrow> n = length xs \<Longrightarrow>
   sorted (map (key_val key) (drop (n - i) xs)) \<Longrightarrow>
   \<forall>x\<in>set (take (n - i) xs). \<forall>y\<in>set (drop (n - i) xs). key_val key x \<le> key_val key y \<Longrightarrow>
   sorted (map (key_val key) (bubble_outer key n xs i))"
proof (induction key n xs i rule: bubble_outer.induct)
  case (1 key n xs i)
  let ?kv = "key_val key"
  show ?case
  proof (cases "i < n - 1")
    case False
    have "sorted (map ?kv xs)"
    proof (cases "n \<le> i")
      case True
      with 1(4) show ?thesis by simp
    next
      case ni: False
      with False have i: "n - i = 1" by simp
      show ?thesis
      proof (cases xs)
        case Nil
        then show ?thesis by simp
      next
        case (Cons x rest)
        with 1(4,5) i show ?thesis by simp
      qed
    qed
    with False show ?thesis by (subst bubble_outer.simps) simp
  next
    case True
    define lim where "lim = n - 1 - i"
    have lim: "lim < length xs" "Suc lim = n - i" using True 1(3) by (auto simp: lim_def)
    obtain ys sw where r: "bubble_inner key xs 0 lim False = (ys, sw)"
      by (cases "bubble_inner key xs 0 lim False")
    have l: "length ys = length xs"
      using bubble_inner_length [of key xs 0 lim False] r by simp
    have m: "mset ys = mset xs"
      using bubble_inner_mset [OF lim(1), of key 0 False] r by simp
    then have s: "set ys = set xs" by (rule mset_eq_setD)
    have d: "drop (n - i) ys = drop (n - i) xs"
      using bubble_inner_drop [of lim key xs 0 False] r lim by simp
    have mt: "mset (take (n - i) ys) = mset (take (n - i) xs)"
      using m d by (rule mset_take_from_drop)
    then have st: "set (take (n - i) ys) = set (take (n - i) xs)" by (rule mset_eq_setD)
    show ?thesis
    proof (cases sw)
      case False
      have u: "ys = xs" "\<forall>k. k < lim \<longrightarrow> \<not> 0 < cmp_students (xs ! k) (xs ! Suc k) key"
        using bubble_inner_unswapped [of key xs 0 lim False] r False by auto
      have "sorted (map ?kv (take (n - i) xs))"
      proof (rule sorted_adjacent, intro allI impI)
        fix k assume k: "Suc k < length (take (n - i) xs)"
        then have kl: "k < lim" "Suc k < length xs" using lim by auto
        then have mem: "xs ! k \<in> set xs" "xs ! Suc k \<in> set xs" by auto
        have "\<not> 0 < cmp_students (xs ! k) (xs ! Suc k) key" using u(2) kl by simp
        then have "?kv (xs ! k) \<le> ?kv (xs ! Suc k)"
          using 1(2) mem by (auto simp: comparable_def)
        with k show "?kv (take (n - i) xs ! k) \<le> ?kv (take (n - i) xs ! Suc k)"
          by simp
      qed
      with 1(4,5) have "sorted (map ?kv (take (n - i) xs @ drop (n - i) xs))"
        unfolding map_append by (simp add: sorted_append)
      then have "sorted (map ?kv xs)" by simp
      with True r False u(1) show ?thesis
        by (subst bubble_outer.simps) (simp add: lim_def)
    next
      case sw: True
      have mx: "\<forall>k\<le>lim. ?kv (ys ! k) \<le> ?kv (ys ! lim)"
        using bubble_inner_max [OF 1(2) lim(1), of 0 False] r by simp
      have dr: "drop (n - (i + 1)) ys = ys ! lim # drop (n - i) xs"
      proof -
        have "n - (i + 1) = lim" by (simp add: lim_def)
        moreover have "drop lim ys = ys ! lim # drop (Suc lim) ys"
          using lim(1) l by (simp add: Cons_nth_drop_Suc)
        ultimately show ?thesis using d by (simp add: lim(2))
      qed
      have yl: "ys ! lim \<in> set (take (n - i) xs)"
      proof -
        have "ys ! lim \<in> set (take (Suc lim) ys)"
          using lim(1) l by (simp add: take_Suc_conv_app_nth)
        with st show ?thesis by (simp add: lim(2))
      qed
      have srt: "sorted (map ?kv (drop (n - (i + 1)) ys))"
        unfolding dr using 1(4,5) yl by auto
      have cross: "\<forall>x\<in>set (take (n - (i + 1)) ys). \<forall>y\<in>set (drop (n - (i + 1)) ys).
                     ?kv x \<le> ?kv y"
      proof (intro ballI)
        fix x y assume x: "x \<in> set (take (n - (i + 1)) ys)" and y: "y \<in> set (drop (n - (i + 1)) ys)"
        have nl: "n - (i + 1) = lim" by (simp add: lim_def)
        from x nl obtain k where k: "k < lim" "x = ys ! k"
          by (auto simp: in_set_conv_nth)
        have xin: "x \<in> set (take (n - i) xs)"
        proof -
          have "x \<in> set (take (Suc lim) ys)"
            using x nl set_take_subset_set_take [of lim "Suc lim" ys] by auto
          with st show ?thesis by (simp add: lim(2))
        qed
        from y dr have "y = ys ! lim \<or> y \<in> set (drop (n - i) xs)" by simp
        then show "?kv x \<le> ?kv y"
        proof
          assume "y = ys ! lim"
          with mx k show ?thesis by simp
        next
          assume "y \<in> set (drop (n - i) xs)"
          with xin 1(5) show ?thesis by simp
        qed
      qed
      have "sorted (map ?kv (bubble_outer key n ys (i + 1)))"
        using "1.IH" [OF True _ _ _ _ srt cross, of sw] r sw 1(2,3) s l
        by (simp add: lim_def)
      with True r sw show ?thesis
        by (subst bubble_outer.simps) (simp add: lim_def)
    qed
  qed
qed

lemma bubble_sort_sorted:
  "comparable key (set xs) \<Longrightarrow> sorted (map (key_val key) (bubble_sort key xs))"
  unfolding bubble_sort_def by (rule bubble_outer_sorted) auto

section \<open>Insertion sort\<close>

lemma insertion_inner_struct:
  "k < length xs \<Longrightarrow>
   \<exists>p\<le>k. insertion_inner key ks xs k = take p xs @ ks # drop p (take k xs) @ drop (Suc k) xs \<and>
          (p = 0 \<or> \<not> 0 < cmp_students (xs ! (p - 1)) ks key) \<and>
          (\<forall>q. p \<le> q \<and> q < k \<longrightarrow> 0 < cmp_students (xs ! q) ks key)"
proof (induction key ks xs k rule: insertion_inner.induct)
  case (1 key ks xs k)
  show ?case
  proof (cases "0 < k \<and> 0 < cmp_students (xs ! (k - 1)) ks key")
    case False
    have "insertion_inner key ks xs k = xs[k := ks]"
      using False by (subst insertion_inner.simps) auto
    also have "\<dots> = take k xs @ ks # drop k (take k xs) @ drop (Suc k) xs"
      using 1(2) by (simp add: upd_conv_take_nth_drop)
    finally show ?thesis using False by (intro exI [of _ k]) auto
  next
    case True
    let ?xs = "xs[k := xs ! (k - 1)]"
    from True 1(2) have k1: "k - 1 < length ?xs" by simp
    from "1.IH" [OF True k1] obtain p where p: "p \<le> k - 1"
      "insertion_inner key ks ?xs (k - 1) =
         take p ?xs @ ks # drop p (take (k - 1) ?xs) @ drop (Suc (k - 1)) ?xs"
      "p = 0 \<or> \<not> 0 < cmp_students (?xs ! (p - 1)) ks key"
      "\<forall>q. p \<le> q \<and> q < k - 1 \<longrightarrow> 0 < cmp_students (?xs ! q) ks key"
      by blast
    have sk: "Suc (k - 1) = k" using True by simp
    have e1: "take p ?xs = take p xs" using p(1) True by simp
    have e2: "take (k - 1) ?xs = take (k - 1) xs" using True by simp
    have e3: "drop k ?xs = xs ! (k - 1) # drop (Suc k) xs"
      using 1(2) by (simp add: drop_update_swap Cons_nth_drop_Suc [symmetric])
    have e4: "take k xs = take (k - 1) xs @ [xs ! (k - 1)]"
      using True 1(2) by (metis Suc_lessD sk take_Suc_conv_app_nth)
    have e5: "drop p (take k xs) = drop p (take (k - 1) xs) @ [xs ! (k - 1)]"
      using p(1) True 1(2) by (simp add: e4)
    have "insertion_inner key ks xs k = insertion_inner key ks ?xs (k - 1)"
      using True by (subst insertion_inner.simps) simp
    also have "\<dots> = take p xs @ ks # drop p (take k xs) @ drop (Suc k) xs"
      unfolding p(2) sk e1 e2 e3 e5 by simp
    finally have r: "insertion_inner key ks xs k =
        take p xs @ ks # drop p (take k xs) @ drop (Suc k) xs" .
    have a: "p = 0 \<or> \<not> 0 < cmp_students (xs ! (p - 1)) ks key"
      using p(1,3) True by (cases "p = 0") auto
    have b: "0 < cmp_students (xs ! q) ks key" if "p \<le> q" "q < k" for q
    proof (cases "q = k - 1")
      case True
      with \<open>0 < k \<and> 0 < cmp_students (xs ! (k - 1)) ks key\<close> show ?thesis by simp
    next
      case False
      with that have "q < k - 1" by simp
      with p(4) that show ?thesis by auto
    qed
    from r a b p(1) show ?thesis
      by (intro exI [of _ p]) auto
  qed
qed

lemma insertion_step_split:
  "p \<le> i \<Longrightarrow> i < length xs \<Longrightarrow>
   xs = take p xs @ drop p (take i xs) @ xs ! i # drop (Suc i) xs"
proof -
  assume a: "p \<le> i" "i < length xs"
  have "take i xs = take p xs @ drop p (take i xs)"
    using a by (metis append_take_drop_id min.absorb2 take_take min.commute)
  moreover have "xs = take i xs @ xs ! i # drop (Suc i) xs"
    using a(2) by (simp add: id_take_nth_drop [symmetric])
  ultimately show ?thesis by (metis append.assoc)
qed

lemma insertion_inner_length:
  "i < length xs \<Longrightarrow> length (insertion_inner key (xs ! i) xs i) = length xs"
proof -
  assume i: "i < length xs"
  from insertion_inner_struct [OF i, of key "xs ! i"] obtain p where
    p: "p \<le> i" "insertion_inner key (xs ! i) xs i =
           take p xs @ xs ! i # drop p (take i xs) @ drop (Suc i) xs"
    by blast
  have "length (take p xs @ xs ! i # drop p (take i xs) @ drop (Suc i) xs) =
        length (take p xs @ drop p (take i xs) @ xs ! i # drop (Suc i) xs)"
    by simp
  with insertion_step_split [OF p(1) i] p(2) show ?thesis by simp
qed

lemma insertion_inner_mset:
  "i < length xs \<Longrightarrow> mset (insertion_inner key (xs ! i) xs i) = mset xs"
proof -
  assume i: "i < length xs"
  from insertion_inner_struct [OF i, of key "xs ! i"] obtain p where
    p: "p \<le> i" "insertion_inner key (xs ! i) xs i =
           take p xs @ xs ! i # drop p (take i xs) @ drop (Suc i) xs"
    by blast
  have "mset (take p xs @ xs ! i # drop p (take i xs) @ drop (Suc i) xs) =
        mset (take p xs @ drop p (take i xs) @ xs ! i # drop (Suc i) xs)"
    by simp
  with insertion_step_split [OF p(1) i] p(2) show ?thesis by simp
qed

lemma insertion_inner_filter:
  assumes i: "i < length xs"
    and P: "\<forall>x\<in>set xs. \<forall>y\<in>set xs. P x \<and> P y \<longrightarrow> \<not> 0 < cmp_students x y key"
  shows "filter P (insertion_inner key (xs ! i) xs i) = filter P xs"
proof -
  from insertion_inner_struct [OF i, of key "xs ! i"] obtain p where
    p: "p \<le> i" "insertion_inner key (xs ! i) xs i =
           take p xs @ xs ! i # drop p (take i xs) @ drop (Suc i) xs"
       "\<forall>q. p \<le> q \<and> q < i \<longrightarrow> 0 < cmp_students (xs ! q) (xs ! i) key"
    by blast
  have mid: "filter P (drop p (take i xs)) = []" if "P (xs ! i)"
  proof -
    have "\<not> P x" if x: "x \<in> set (drop p (take i xs))" for x
    proof -
      from x obtain q where q: "q < length (drop p (take i xs))" "x = drop p (take i xs) ! q"
        by (auto simp: in_set_conv_nth)
      then have xq: "x = xs ! (p + q)" "p + q < i" using i p(1) by auto
      with p(3) have "0 < cmp_students x (xs ! i) key" by simp
      moreover have "x \<in> set xs" "xs ! i \<in> set xs" using xq i by auto
      ultimately show ?thesis using P \<open>P (xs ! i)\<close> by blast
    qed
    then show ?thesis by (simp add: filter_empty_conv)
  qed
  have "filter P (take p xs @ xs ! i # drop p (take i xs) @ drop (Suc i) xs) =
        filter P (take p xs @ drop p (take i xs) @ xs ! i # drop (Suc i) xs)"
    using mid by (cases "P (xs ! i)") simp_all
  with insertion_step_split [OF p(1) i] p(2) show ?thesis by simp
qed

lemma insertion_outer_length:
  "n = length xs \<Longrightarrow> length (insertion_outer key n xs i) = length xs"
proof (induction key n xs i rule: insertion_outer.induct)
  case (1 key n xs i)
  show ?case
  proof (cases "i < n")
    case False
    then show ?thesis by (subst insertion_outer.simps) simp
  next
    case True
    with 1(2) have l: "length (insertion_inner key (xs ! i) xs i) = length xs"
      by (simp add: insertion_inner_length)
    with "1.IH" [OF True] 1(2) True show ?thesis
      by (subst insertion_outer.simps) simp
  qed
qed

lemma insertion_outer_mset:
  "n = length xs \<Longrightarrow> mset (insertion_outer key n xs i) = mset xs"
proof (induction key n xs i rule: insertion_outer.induct)
  case (1 key n xs i)
  show ?case
  proof (cases "i < n")
    case False
    then show ?thesis by (subst insertion_outer.simps) simp
  next
    case True
    with 1(2) have l: "length (insertion_inner key (xs ! i) xs i) = length xs"
      and m: "mset (insertion_inner key (xs ! i) xs i) = mset xs"
      by (simp_all add: insertion_inner_length insertion_inner_mset)
    with "1.IH" [OF True] 1(2) True show ?thesis
      by (subst insertion_outer.simps) simp
  qed
qed

lemma insertion_outer_filter:
  "n = length xs \<Longrightarrow>
   \<forall>x\<in>set xs. \<forall>y\<in>set xs. P x \<and> P y \<longrightarrow> \<not> 0 < cmp_students x y key \<Longrightarrow>
   filter P (insertion_outer key n xs i) = filter P xs"
proof (induction key n xs i rule: insertion_outer.induct)
  case (1 key n xs i)
  show ?case
  proof (cases "i < n")
    case False
    then show ?thesis by (subst insertion_outer.simps) simp
  next
    case True
    let ?ys = "insertion_inner key (xs ! i) xs i"
    from True 1(2) have i: "i < length xs" by simp
    have l: "length ?ys = length xs" using i by (rule insertion_inner_length)
    have m: "mset ?ys = mset xs" using i by (rule insertion_inner_mset)
    then have s: "set ?ys = set xs" by (rule mset_eq_setD)
    have f: "filter P ?ys = filter P xs" using i 1(3) by (rule insertion_inner_filter)
    from "1.IH" [OF True] l s f 1(2,3) True show ?thesis
      by (subst insertion_outer.simps) simp
  qed
qed

lemma insertion_inner_sorted:
  assumes c: "comparable key (set xs)" and i: "i < length xs"
    and srt: "sorted (map (key_val key) (take i xs))"
  shows "sorted (map (key_val key) (take (Suc i) (insertion_inner key (xs ! i) xs i)))"
proof -
  let ?kv = "key_val key"
  from insertion_inner_struct [OF i, of key "xs ! i"] obtain p where
    p: "p \<le> i" "insertion_inner key (xs ! i) xs i =
           take p xs @ xs ! i # drop p (take i xs) @ drop (Suc i) xs"
       "p = 0 \<or> \<not> 0 < cmp_students (xs ! (p - 1)) (xs ! i) key"
       "\<forall>q. p \<le> q \<and> q < i \<longrightarrow> 0 < cmp_students (xs ! q) (xs ! i) key"
    by blast
  have len: "length (take p xs @ xs ! i # drop p (take i xs)) = Suc i"
    using p(1) i by simp
  have tk: "take (Suc i) (insertion_inner key (xs ! i) xs i) =
            take p xs @ xs ! i # drop p (take i xs)"
    unfolding p(2) using len
    by (metis append.assoc append_Cons append_eq_conv_conj)
  have ti: "take i xs = take p xs @ drop p (take i xs)"
    using p(1) by (metis append_take_drop_id min.absorb2 take_take min.commute)
  have s0: "sorted (map ?kv (take p xs) @ map ?kv (drop p (take i xs)))"
    using srt ti by (metis map_append)
  have cmp: "(0 < cmp_students a b key) = (?kv b < ?kv a)" if "a \<in> set xs" "b \<in> set xs" for a b
    using c that by (simp add: comparable_def)
  have hi: "?kv (xs ! i) \<le> ?kv x" if x: "x \<in> set (drop p (take i xs))" for x
  proof -
    from x obtain q where q: "q < length (drop p (take i xs))" "x = drop p (take i xs) ! q"
      by (auto simp: in_set_conv_nth)
    then have xq: "x = xs ! (p + q)" "p + q < i" using i p(1) by auto
    with p(4) have "0 < cmp_students x (xs ! i) key" by simp
    moreover have "x \<in> set xs" "xs ! i \<in> set xs" using xq i by auto
    ultimately show ?thesis using cmp by simp
  qed
  have lo: "?kv x \<le> ?kv (xs ! i)" if x: "x \<in> set (take p xs)" for x
  proof -
    from x have p0: "0 < p" by (cases p) auto
    from x obtain q where q: "q < p" "q < length xs" "x = xs ! q"
      by (auto simp: in_set_conv_nth)
    have pi: "p - 1 < i" using p0 p(1) by simp
    have "?kv (xs ! q) \<le> ?kv (xs ! (p - 1))"
    proof -
      have "map ?kv (take i xs) ! q \<le> map ?kv (take i xs) ! (p - 1)"
        using srt q pi i by (intro sorted_nth_mono) auto
      then show ?thesis using q pi i by simp
    qed
    moreover have "?kv (xs ! (p - 1)) \<le> ?kv (xs ! i)"
    proof -
      from p(3) p0 have "\<not> 0 < cmp_students (xs ! (p - 1)) (xs ! i) key" by simp
      moreover have "xs ! (p - 1) \<in> set xs" "xs ! i \<in> set xs" using pi i by auto
      ultimately show ?thesis using cmp by simp
    qed
    ultimately show ?thesis using q by simp
  qed
  have "sorted (map ?kv (take p xs) @ ?kv (xs ! i) # map ?kv (drop p (take i xs)))"
    using s0 hi lo by (auto simp: sorted_append)
  then show ?thesis unfolding tk by simp
qed

lemma insertion_outer_sorted:
  "comparable key (set xs) \<Longrightarrow> n = length xs \<Longrightarrow>
   sorted (map (key_val key) (take i xs)) \<Longrightarrow>
   sorted (map (key_val key) (insertion_outer key n xs i))"
proof (induction key n xs i rule: insertion_outer.induct)
  case (1 key n xs i)
  show ?case
  proof (cases "i < n")
    case False
    with 1(3,4) show ?thesis by (subst insertion_outer.simps) simp
  next
    case True
    let ?ys = "insertion_inner key (xs ! i) xs i"
    from True 1(3) have i: "i < length xs" by simp
    have l: "length ?ys = length xs" using i by (rule insertion_inner_length)
    have m: "mset ?ys = mset xs" using i by (rule insertion_inner_mset)
    then have s: "set ?ys = set xs" by (rule mset_eq_setD)
    have srt: "sorted (map (key_val key) (take (i + 1) ?ys))"
      using insertion_inner_sorted [OF 1(2) i 1(4)] by simp
    from "1.IH" [OF True _ _ srt] l s 1(2,3) True show ?thesis
      by (subst insertion_outer.simps) simp
  qed
qed

lemma insertion_sort_sorted:
  "comparable key (set xs) \<Longrightarrow> sorted (map (key_val key) (insertion_sort key xs))"
  unfolding insertion_sort_def
  by (rule insertion_outer_sorted) (auto simp: take_Suc_conv_app_nth split: list.splits intro: sorted01)

section \<open>Merge sort\<close>

lemma merge_lists_Nil2 [simp]: "merge_lists key L [] = L"
  by (cases L) simp_all

lemma merge_lists_mset: "mset (merge_lists key L R) = mset L + mset R"
  by (induction key L R rule: merge_lists.induct) auto

lemma merge_lists_length: "length (merge_lists key L R) = length L + length R"
  by (induction key L R rule: merge_lists.induct) auto

lemma merge_lists_set: "set (merge_lists key L R) = set L \<union> set R"
  by (metis merge_lists_mset set_mset_mset set_mset_union)

lemma comparable_subset: "comparable key A \<Longrightarrow> B \<subseteq> A \<Longrightarrow> comparable key B"
  by (auto simp: comparable_def)

lemma comparable_le:
  "comparable key A \<Longrightarrow> a \<in> A \<Longrightarrow> b \<in> A \<Longrightarrow>
   (cmp_students a b key \<le> 0) = (key_val key a \<le> key_val key b)"
proof -
  assume "comparable key A" "a \<in> A" "b \<in> A"
  then have "(0 < cmp_students a b key) = (key_val key b < key_val key a)"
    by (simp add: comparable_def)
  then show ?thesis by linarith
qed

lemma merge_lists_sorted:
  "comparable key (set L \<union> set R) \<Longrightarrow>
   sorted (map (key_val key) L) \<Longrightarrow> sorted (map (key_val key) R) \<Longrightarrow>
   sorted (map (key_val key) (merge_lists key L R))"
proof (induction key L R rule: merge_lists.induct)
  case (3 key a L b R)
  have le: "(cmp_students a b key \<le> 0) = (key_val key a \<le> key_val key b)"
    using 3(3) by (intro comparable_le [of key "set (a # L) \<union> set (b # R)"]) auto
  show ?case
  proof (cases "cmp_students a b key \<le> 0")
    case True
    have "comparable key (set L \<union> set (b # R))"
      using 3(3) by (rule comparable_subset) auto
    with "3.IH"(1) [OF True] 3(4,5) have "sorted (map (key_val key) (merge_lists key L (b # R)))"
      by simp
    moreover have "\<forall>x\<in>set (merge_lists key L (b # R)). key_val key a \<le> key_val key x"
      using 3(4,5) True le by (auto simp: merge_lists_set)
    ultimately show ?thesis using True by simp
  next
    case False
    have "comparable key (set (a # L) \<union> set R)"
      using 3(3) by (rule comparable_subset) auto
    with "3.IH"(2) [OF False] 3(4,5) have "sorted (map (key_val key) (merge_lists key (a # L) R))"
      by simp
    moreover have "\<forall>x\<in>set (merge_lists key (a # L) R). key_val key b \<le> key_val key x"
      using 3(4,5) False le by (auto simp: merge_lists_set)
    ultimately show ?thesis using False by simp
  qed
qed simp_all

lemma merge_lists_filter:
  "comparable key (set L \<union> set R) \<Longrightarrow> sorted (map (key_val key) L) \<Longrightarrow>
   filter (\<lambda>s. key_val key s = c) (merge_lists key L R) =
   filter (\<lambda>s. key_val key s = c) L @ filter (\<lambda>s. key_val key s = c) R"
proof (induction key L R rule: merge_lists.induct)
  case (3 key a L b R)
  have le: "(cmp_students a b key \<le> 0) = (key_val key a \<le> key_val key b)"
    using 3(3) by (intro comparable_le [of key "set (a # L) \<union> set (b # R)"]) auto
  show ?case
  proof (cases "cmp_students a b key \<le> 0")
    case True
    have "comparable key (set L \<union> set (b # R))"
      using 3(3) by (rule comparable_subset) auto
    with "3.IH"(1) [OF True] 3(4) True show ?thesis by simp
  next
    case False
    have c: "comparable key (set (a # L) \<union> set R)"
      using 3(3) by (rule comparable_subset) auto
    have ih: "filter (\<lambda>s. key_val key s = c) (merge_lists key (a # L) R) =
      filter (\<lambda>s. key_val key s = c) (a # L) @ filter (\<lambda>s. key_val key s = c) R"
      using "3.IH"(2) [OF False c 3(4)] .
    show ?thesis
    proof (cases "key_val key b = c")
      case kb: True
      have "\<forall>x\<in>set (a # L). key_val key x \<noteq> c"
        using 3(4) False le kb by auto
      then have "filter (\<lambda>s. key_val key s = c) (a # L) = []"
        by (simp add: filter_empty_conv)
      with ih False kb show ?thesis by simp
    next
      case False' : False
      with ih False show ?thesis by simp
    qed
  qed
qed simp_all

lemma drain_eq:
  "i \<le> length B \<Longrightarrow> k + (length B - i) \<le> length xs \<Longrightarrow>
   drain B xs i k = (take k xs @ drop i B @ drop (k + (length B - i)) xs, k + (length B - i))"
proof (induction B xs i k rule: drain.induct)
  case (1 B xs i k)
  show ?case
  proof (cases "i < length B")
    case False
    with 1(2) show ?thesis by (subst drain.simps) simp
  next
    case True
    let ?xs = "xs[k := B ! i]"
    from True 1(3) have k: "k < length xs" by simp
    have idx: "k + 1 + (length B - (i + 1)) = k + (length B - i)"
      using True by simp
    have ih: "drain B ?xs (i + 1) (k + 1) =
        (take (k + 1) ?xs @ drop (i + 1) B @ drop (k + 1 + (length B - (i + 1))) ?xs,
         k + 1 + (length B - (i + 1)))"
      using True 1(3) by (intro "1.IH" [OF True]) auto
    have t: "take (k + 1) ?xs = take k xs @ [B ! i]"
      using k by (simp add: take_Suc_conv_app_nth)
    have d: "drop (k + (length B - i)) ?xs = drop (k + (length B - i)) xs"
      using True by (intro drop_update_cancel) simp
    have "drain B xs i k = drain B ?xs (i + 1) (k + 1)"
      using True by (subst drain.simps) simp
    also have "\<dots> = (take k xs @ [B ! i] @ drop (i + 1) B @ drop (k + (length B - i)) xs,
                       k + (length B - i))"
      unfolding ih idx t d by simp
    finally show ?thesis
      using True by (simp add: Cons_nth_drop_Suc)
  qed
qed

lemma merge_loop_drain:
  "i \<le> length L \<Longrightarrow> j \<le> length R \<Longrightarrow>
   k + (length L - i) + (length R - j) \<le> length xs \<Longrightarrow>
   (case merge_loop key L R xs i j k of
      (s1, i', j', k') \<Rightarrow> (case drain L s1 i' k' of (s2, k2) \<Rightarrow> fst (drain R s2 j' k2))) =
   take k xs @ merge_lists key (drop i L) (drop j R) @
   drop (k + (length L - i) + (length R - j)) xs"
proof (induction key L R xs i j k rule: merge_loop.induct)
  case (1 key L R xs i j k)
  show ?case
  proof (cases "i < length L \<and> j < length R")
    case False
    have ml: "merge_loop key L R xs i j k = (xs, i, j, k)"
      using False by (subst merge_loop.simps) auto
    show ?thesis
    proof (cases "i < length L")
      case True
      with False 1(4) have j: "j = length R" by simp
      have d1: "drain L xs i k = (take k xs @ drop i L @ drop (k + (length L - i)) xs,
                                 k + (length L - i))"
        using 1(3,5) by (intro drain_eq) auto
      have d2: "drain R s (length R) k2 = (s, k2)" for s k2
        by (subst drain.simps) simp
      show ?thesis
        unfolding ml using j by (simp add: d1 d2)
    next
      case iL: False
      with 1(3) have i: "i = length L" by simp
      have d1: "drain L xs (length L) k = (xs, k)"
        by (subst drain.simps) simp
      have d2: "drain R xs j k = (take k xs @ drop j R @ drop (k + (length R - j)) xs,
                                 k + (length R - j))"
        using 1(4,5) by (intro drain_eq) auto
      show ?thesis
        unfolding ml using i by (simp add: d1 d2)
    qed
  next
    case True
    then have k: "k < length xs" using 1(5) by linarith
    have dl: "drop i L = L ! i # drop (Suc i) L" and dr: "drop j R = R ! j # drop (Suc j) R"
      using True by (simp_all add: Cons_nth_drop_Suc)
    show ?thesis
    proof (cases "cmp_students (L ! i) (R ! j) key \<le> 0")
      case le: True
      let ?xs = "xs[k := L ! i]"
      have idx: "k + 1 + (length L - (i + 1)) + (length R - j) =
                 k + (length L - i) + (length R - j)"
        using True by linarith
      have ih: "(case merge_loop key L R ?xs (i + 1) j (k + 1) of
          (s1, i', j', k') \<Rightarrow> (case drain L s1 i' k' of (s2, k2) \<Rightarrow> fst (drain R s2 j' k2))) =
        take (k + 1) ?xs @ merge_lists key (drop (i + 1) L) (drop j R) @
        drop (k + 1 + (length L - (i + 1)) + (length R - j)) ?xs"
      proof -
        have b1: "i + 1 \<le> length L" using True by linarith
        have b2: "k + 1 + (length L - (i + 1)) + (length R - j) \<le> length ?xs"
          using True 1(5) by (simp only: length_list_update) linarith
        show ?thesis by (rule "1.IH"(1) [OF True le b1 1(4) b2])
      qed
      have t: "take (k + 1) ?xs = take k xs @ [L ! i]"
        using k by (simp add: take_Suc_conv_app_nth)
      have d: "drop (k + (length L - i) + (length R - j)) ?xs =
               drop (k + (length L - i) + (length R - j)) xs"
        using True by (intro drop_update_cancel) linarith
      have "merge_loop key L R xs i j k = merge_loop key L R ?xs (i + 1) j (k + 1)"
        using True le by (subst merge_loop.simps) simp
      then show ?thesis
        using ih le unfolding idx t d dl by (simp add: dr)
    next
      case gt: False
      let ?xs = "xs[k := R ! j]"
      have idx: "k + 1 + (length L - i) + (length R - (j + 1)) =
                 k + (length L - i) + (length R - j)"
        using True by linarith
      have ih: "(case merge_loop key L R ?xs i (j + 1) (k + 1) of
          (s1, i', j', k') \<Rightarrow> (case drain L s1 i' k' of (s2, k2) \<Rightarrow> fst (drain R s2 j' k2))) =
        take (k + 1) ?xs @ merge_lists key (drop i L) (drop (j + 1) R) @
        drop (k + 1 + (length L - i) + (length R - (j + 1))) ?xs"
      proof -
        have b1: "j + 1 \<le> length R" using True by linarith
        have b2: "k + 1 + (length L - i) + (length R - (j + 1)) \<le> length ?xs"
          using True 1(5) by (simp only: length_list_update) linarith
        show ?thesis by (rule "1.IH"(2) [OF True gt 1(3) b1 b2])
      qed
      have t: "take (k + 1) ?xs = take k xs @ [R ! j]"
        using k by (simp add: take_Suc_conv_app_nth)
      have d: "drop (k + (length L - i) + (length R - j)) ?xs =
               drop (k + (length L - i) + (length R - j)) xs"
        using True by (intro drop_update_cancel) linarith
      have "merge_loop key L R xs i j k = merge_loop key L R ?xs i (j + 1) (k + 1)"
        using True gt by (subst merge_loop.simps) simp
      then show ?thesis
        using ih gt unfolding idx t d dr by (simp add: dl)
    qed
  qed
qed

lemma copy_out_eq:
  "start + n \<le> length xs \<Longrightarrow> copy_out xs start n = take n (drop start xs)"
  by (auto simp: copy_out_def intro!: nth_equalityI)

lemma merge_range_eq:
  assumes "left \<le> mid" "mid < right" "right < length xs"
  shows "merge_range key xs left mid right =
         take left xs @
         merge_lists key (take (mid - left + 1) (drop left xs)) (take (right - mid) (drop (mid + 1) xs)) @
         drop (Suc right) xs"
proof -
  let ?L = "take (mid - left + 1) (drop left xs)"
  let ?R = "take (right - mid) (drop (mid + 1) xs)"
  have cL: "copy_out xs left (mid - left + 1) = ?L" and cR: "copy_out xs (mid + 1) (right - mid) = ?R"
    using assms by (simp_all add: copy_out_eq)
  have lL: "length ?L = mid - left + 1" and lR: "length ?R = right - mid"
    using assms by simp_all
  have "(case merge_loop key ?L ?R xs 0 0 left of
      (s1, i', j', k') \<Rightarrow> (case drain ?L s1 i' k' of (s2, k2) \<Rightarrow> fst (drain ?R s2 j' k2))) =
   take left xs @ merge_lists key (drop 0 ?L) (drop 0 ?R) @
   drop (left + (length ?L - 0) + (length ?R - 0)) xs"
    by (intro merge_loop_drain) (insert assms, simp_all)
  moreover have "left + (length ?L - 0) + (length ?R - 0) = Suc right"
    unfolding lL lR using assms by simp
  ultimately show ?thesis
    unfolding merge_range_def Let_def cL cR by simp
qed

lemma segment_split3:
  "l \<le> r \<Longrightarrow> r < length xs \<Longrightarrow> xs = take l xs @ segment xs l r @ drop (Suc r) xs"
proof -
  assume a: "l \<le> r" "r < length xs"
  have "drop l xs = take (Suc r - l) (drop l xs) @ drop (Suc r - l) (drop l xs)"
    by (rule append_take_drop_id [symmetric])
  also have "drop (Suc r - l) (drop l xs) = drop (Suc r) xs"
    using a by simp
  finally have "drop l xs = segment xs l r @ drop (Suc r) xs"
    by (simp add: segment_def)
  then show ?thesis by (metis append_take_drop_id)
qed

lemma segment_append:
  "l \<le> m \<Longrightarrow> m < r \<Longrightarrow> r < length xs \<Longrightarrow>
   segment xs l r = segment xs l m @ segment xs (Suc m) r"
proof -
  assume a: "l \<le> m" "m < r" "r < length xs"
  have "Suc r - l = (Suc m - l) + (r - m)" using a by linarith
  then have "take (Suc r - l) (drop l xs) =
        take (Suc m - l) (drop l xs) @ take (r - m) (drop (Suc m - l) (drop l xs))"
    by (simp add: take_add)
  moreover have "drop (Suc m - l) (drop l xs) = drop (Suc m) xs"
    using a by simp
  ultimately show ?thesis by (simp add: segment_def)
qed

lemma segment_single: "l < length xs \<Longrightarrow> segment xs l l = [xs ! l]"
  by (simp add: segment_def take_Suc_conv_app_nth Cons_nth_drop_Suc [symmetric])

lemma segment_length: "r < length xs \<Longrightarrow> length (segment xs l r) = Suc r - l"
  by (auto simp: segment_def)

lemma replaced_facts:
  assumes "length seg = Suc r - l" "l \<le> r" "r < length xs"
  shows "length (take l xs @ seg @ drop (Suc r) xs) = length xs"
    and "take l (take l xs @ seg @ drop (Suc r) xs) = take l xs"
    and "segment (take l xs @ seg @ drop (Suc r) xs) l r = seg"
    and "take (Suc r) (take l xs @ seg @ drop (Suc r) xs) = take l xs @ seg"
    and "Suc r \<le> m \<Longrightarrow> drop m (take l xs @ seg @ drop (Suc r) xs) = drop m xs"
proof -
  have ll: "length (take l xs) = l" using assms by simp
  show "length (take l xs @ seg @ drop (Suc r) xs) = length xs"
    using assms by simp
  show "take l (take l xs @ seg @ drop (Suc r) xs) = take l xs"
    using ll by simp
  show "segment (take l xs @ seg @ drop (Suc r) xs) l r = seg"
    using ll assms by (simp add: segment_def)
  have l2: "length (take l xs @ seg) = Suc r" using ll assms by simp
  show "take (Suc r) (take l xs @ seg @ drop (Suc r) xs) = take l xs @ seg"
    using l2 by (metis append.assoc append_eq_conv_conj)
  show "drop m (take l xs @ seg @ drop (Suc r) xs) = drop m xs" if "Suc r \<le> m"
  proof -
    have "drop m ((take l xs @ seg) @ drop (Suc r) xs) = drop (m - Suc r) (drop (Suc r) xs)"
      using l2 that by (simp del: append_assoc)
    then show ?thesis using that by simp
  qed
qed

lemma replaced_mset:
  assumes "mset seg = mset (segment xs l r)" "l \<le> r" "r < length xs"
  shows "mset (take l xs @ seg @ drop (Suc r) xs) = mset xs"
proof -
  have "mset (take l xs @ seg @ drop (Suc r) xs) =
        mset (take l xs @ segment xs l r @ drop (Suc r) xs)"
    using assms(1) by simp
  with segment_split3 [OF assms(2,3)] show ?thesis by simp
qed

lemma replaced_segment_right:
  assumes "length seg = Suc m - l" "l \<le> m" "m < r" "r < length xs"
  shows "segment (take l xs @ seg @ drop (Suc m) xs) (Suc m) r = segment xs (Suc m) r"
proof -
  have "m < length xs" using assms by simp
  from replaced_facts(5) [OF assms(1,2) this, of "Suc m"]
  show ?thesis by (simp add: segment_def)
qed

lemma merge_sort_recursive_struct:
  "left \<le> right \<Longrightarrow> right < length xs \<Longrightarrow>
   \<exists>seg. merge_sort_recursive key xs left right = take left xs @ seg @ drop (Suc right) xs \<and>
         msr_post key xs left right seg"
proof (induction key xs left right rule: merge_sort_recursive.induct)
  case (1 key xs left right)
  show ?case
  proof (cases "right \<le> left")
    case True
    with 1(3) have eq: "left = right" by simp
    have r: "merge_sort_recursive key xs left right = xs"
      using True by (subst merge_sort_recursive.simps) simp
    have s: "segment xs left right = [xs ! left]"
      using eq 1(4) by (simp add: segment_single)
    have "xs = take left xs @ [xs ! left] @ drop (Suc right) xs"
      using segment_split3 [OF 1(3,4)] s by simp
    moreover have "msr_post key xs left right [xs ! left]"
      using s eq by (simp add: msr_post_def)
    ultimately show ?thesis using r by metis
  next
    case False
    define mid where "mid = left + (right - left) div 2"
    have mid: "left \<le> mid" "mid < right" "mid < length xs"
      using False 1(4) by (auto simp: mid_def)
    define s1 where "s1 = merge_sort_recursive key xs left mid"
    define s2 where "s2 = merge_sort_recursive key s1 (mid + 1) right"
    have res: "merge_sort_recursive key xs left right = merge_range key s2 left mid right"
      using False by (subst merge_sort_recursive.simps) (simp add: Let_def mid_def s1_def s2_def)
    from "1.IH"(1) [OF False mid_def mid(1,3)] obtain seg1 where
      seg1: "s1 = take left xs @ seg1 @ drop (Suc mid) xs" "msr_post key xs left mid seg1"
      unfolding s1_def by blast
    have l1: "length seg1 = Suc mid - left" and m1: "mset seg1 = mset (segment xs left mid)"
      using seg1(2) by (simp_all add: msr_post_def)
    have len1: "length s1 = length xs"
      unfolding seg1(1) by (rule replaced_facts(1) [OF l1 mid(1,3)])
    have ms1: "mset s1 = mset xs"
      unfolding seg1(1) by (rule replaced_mset [OF m1 mid(1,3)])
    then have set1: "set s1 = set xs" by (rule mset_eq_setD)
    have b2: "mid + 1 \<le> right" "right < length s1" using mid 1(4) len1 by simp_all
    from "1.IH"(2) [OF False mid_def s1_def b2] obtain seg2 where
      seg2: "s2 = take (mid + 1) s1 @ seg2 @ drop (Suc right) s1" "msr_post key s1 (mid + 1) right seg2"
      unfolding s2_def by blast
    have sg2: "segment s1 (mid + 1) right = segment xs (Suc mid) right"
      unfolding seg1(1) using replaced_segment_right [OF l1 mid(1,2) 1(4)] by simp
    have l2: "length seg2 = right - mid" and m2: "mset seg2 = mset (segment xs (Suc mid) right)"
      using seg2(2) sg2 by (simp_all add: msr_post_def)
    have t1: "take (mid + 1) s1 = take left xs @ seg1"
      unfolding seg1(1) using replaced_facts(4) [OF l1 mid(1,3)] by simp
    have d1: "drop (Suc right) s1 = drop (Suc right) xs"
      unfolding seg1(1) using replaced_facts(5) [OF l1 mid(1,3), of "Suc right"] mid by simp
    have s2eq: "s2 = take left xs @ (seg1 @ seg2) @ drop (Suc right) xs"
      unfolding seg2(1) t1 d1 by simp
    have l12: "length (seg1 @ seg2) = Suc right - left"
      using l1 l2 mid by simp
    have len2: "length s2 = length xs"
      unfolding s2eq by (rule replaced_facts(1) [OF l12 1(3,4)])
    have tl: "take left s2 = take left xs"
      unfolding s2eq by (rule replaced_facts(2) [OF l12 1(3,4)])
    have dr: "drop (Suc right) s2 = drop (Suc right) xs"
      unfolding s2eq by (rule replaced_facts(5) [OF l12 1(3,4)]) simp
    have dl: "drop left s2 = seg1 @ seg2 @ drop (Suc right) xs"
    proof -
      have "length (take left xs) = left" using 1(3,4) by simp
      then show ?thesis unfolding s2eq by (metis append.assoc append_eq_conv_conj)
    qed
    have L: "take (mid - left + 1) (drop left s2) = seg1"
      unfolding dl using l1 mid by simp
    have R: "take (right - mid) (drop (mid + 1) s2) = seg2"
    proof -
      have "drop (mid + 1) s2 = drop (mid + 1 - left) (drop left s2)"
        using mid by simp
      also have "\<dots> = seg2 @ drop (Suc right) xs"
        unfolding dl using l1 mid by simp
      finally show ?thesis using l2 by simp
    qed
    have mr: "merge_range key s2 left mid right =
        take left xs @ merge_lists key seg1 seg2 @ drop (Suc right) xs"
    proof -
      have "right < length s2" using 1(4) len2 by simp
      from merge_range_eq [OF mid(1,2) this, of key] show ?thesis
        unfolding L R tl dr .
    qed
    have sa: "segment xs left right = segment xs left mid @ segment xs (Suc mid) right"
      using mid 1(4) by (intro segment_append) auto
    have post: "msr_post key xs left right (merge_lists key seg1 seg2)"
      unfolding msr_post_def
    proof (intro conjI impI allI)
      show "length (merge_lists key seg1 seg2) = Suc right - left"
        using l12 by (simp add: merge_lists_length)
      show "mset (merge_lists key seg1 seg2) = mset (segment xs left right)"
        by (simp add: merge_lists_mset m1 m2 sa)
    next
      assume c: "comparable key (set xs)"
      then have c1: "comparable key (set s1)" by (simp add: set1)
      have sub: "set seg1 \<union> set seg2 \<subseteq> set xs"
      proof -
        have "set seg1 = set (segment xs left mid)" "set seg2 = set (segment xs (Suc mid) right)"
          using m1 m2 by (auto dest: mset_eq_setD)
        then show ?thesis
          by (auto simp: segment_def dest: in_set_takeD in_set_dropD)
      qed
      have c12: "comparable key (set seg1 \<union> set seg2)"
        using c sub by (rule comparable_subset)
      have srt1: "sorted (map (key_val key) seg1)"
        and f1: "filter (\<lambda>s. key_val key s = c) seg1 =
                 filter (\<lambda>s. key_val key s = c) (segment xs left mid)" for c
        using seg1(2) \<open>comparable key (set xs)\<close> by (simp_all add: msr_post_def)
      have srt2: "sorted (map (key_val key) seg2)"
        and f2: "filter (\<lambda>s. key_val key s = c) seg2 =
                 filter (\<lambda>s. key_val key s = c) (segment xs (Suc mid) right)" for c
        using seg2(2) c1 sg2 by (simp_all add: msr_post_def)
      show "sorted (map (key_val key) (merge_lists key seg1 seg2))"
        using c12 srt1 srt2 by (rule merge_lists_sorted)
      fix c
      show "filter (\<lambda>s. key_val key s = c) (merge_lists key seg1 seg2) =
            filter (\<lambda>s. key_val key s = c) (segment xs left right)"
        using merge_lists_filter [OF c12 srt1, of c] by (simp add: f1 f2 sa)
    qed
    from res mr post show ?thesis by metis
  qed
qed

section \<open>The three methods together\<close>

lemma comparable_avg: "no_nan_average xs \<Longrightarrow> comparable SORT_BY_AVG (set xs)"
  by (auto simp: comparable_def no_nan_average_def cmp_students_def key_val_def fgt_def flt_def)

lemma sint_diff:
  "- (2 ^ 31) \<le> sint a - sint b \<Longrightarrow> sint a - sint b < 2 ^ 31 \<Longrightarrow>
   sint (a - b :: c_int) = sint a - sint b"
  by (simp add: sint_word_ariths signed_take_bit_int_eq_self)

lemma comparable_id: "id_differences_fit xs \<Longrightarrow> comparable SORT_BY_ID (set xs)"
  unfolding comparable_def id_differences_fit_def cmp_students_def key_val_def
  by (auto simp: sint_diff)

lemma sort_students_length: "length (sort_students method key xs) = length xs"
proof (cases "length xs \<le> 1")
  case True
  then show ?thesis by (simp add: sort_students_def)
next
  case False
  then have b: "0 \<le> length xs - 1" "length xs - 1 < length xs" by auto
  from merge_sort_recursive_struct [OF b, of key] obtain seg where
    "merge_sort_recursive key xs 0 (length xs - 1) = take 0 xs @ seg @ drop (Suc (length xs - 1)) xs"
    "msr_post key xs 0 (length xs - 1) seg" by blast
  then have "length (merge_sort_recursive key xs 0 (length xs - 1)) = length xs"
    using False by (simp add: msr_post_def)
  then show ?thesis
    by (cases "method")
       (simp_all add: sort_students_def bubble_sort_def insertion_sort_def
          bubble_outer_length insertion_outer_length)
qed

lemma merge_sort_whole:
  assumes "1 < length xs"
  shows "msr_post key xs 0 (length xs - 1) (merge_sort_recursive key xs 0 (length xs - 1))"
proof -
  from assms have b: "0 \<le> length xs - 1" "length xs - 1 < length xs" by auto
  from merge_sort_recursive_struct [OF b, of key] obtain seg where
    s: "merge_sort_recursive key xs 0 (length xs - 1) = take 0 xs @ seg @ drop (Suc (length xs - 1)) xs"
    "msr_post key xs 0 (length xs - 1) seg" by blast
  from s(1) assms have "merge_sort_recursive key xs 0 (length xs - 1) = seg" by simp
  with s(2) show ?thesis by simp
qed

lemma segment_whole: "segment xs 0 (length xs - Suc 0) = xs"
  by (simp add: segment_def)

lemma sort_students_mset: "mset (sort_students method key xs) = mset xs"
proof (cases "length xs \<le> 1")
  case True
  then show ?thesis by (simp add: sort_students_def)
next
  case False
  then have "mset (merge_sort_recursive key xs 0 (length xs - 1)) = mset xs"
    using merge_sort_whole [of xs key] by (simp add: msr_post_def segment_whole)
  then show ?thesis
    by (cases "method")
       (simp_all add: sort_students_def bubble_sort_def insertion_sort_def
          bubble_outer_mset insertion_outer_mset)
qed

lemma sort_students_set: "set (sort_students method key xs) = set xs"
  using sort_students_mset by (rule mset_eq_setD)

lemma sort_students_sorted:
  assumes "comparable key (set xs)"
  shows "sorted (map (key_val key) (sort_students method key xs))"
proof (cases "length xs \<le> 1")
  case True
  then have "sorted (map (key_val key) xs)"
    by (cases xs) (auto simp: le_Suc_eq)
  with True show ?thesis by (simp add: sort_students_def)
next
  case False
  then have "sorted (map (key_val key) (merge_sort_recursive key xs 0 (length xs - 1)))"
    using merge_sort_whole [of xs key] assms by (simp add: msr_post_def)
  then show ?thesis
    using False assms
    by (cases "method")
       (simp_all add: sort_students_def bubble_sort_sorted insertion_sort_sorted)
qed

lemma sort_students_filter_key:
  assumes "comparable key (set xs)"
  shows "filter (\<lambda>s. key_val key s = c) (sort_students method key xs) =
         filter (\<lambda>s. key_val key s = c) xs"
proof (cases "length xs \<le> 1")
  case True
  then show ?thesis by (simp add: sort_students_def)
next
  case False
  have P: "\<forall>x\<in>set xs. \<forall>y\<in>set xs. key_val key x = c \<and> key_val key y = c \<longrightarrow>
             \<not> 0 < cmp_students x y key"
    using assms by (auto simp: comparable_def)
  have "filter (\<lambda>s. key_val key s = c) (merge_sort_recursive key xs 0 (length xs - 1)) =
        filter (\<lambda>s. key_val key s = c) xs"
    using merge_sort_whole [of xs key] assms False by (simp add: msr_post_def segment_whole)
  then show ?thesis
    using False P
    by (cases "method")
       (simp_all add: sort_students_def bubble_sort_def insertion_sort_def
          bubble_outer_filter insertion_outer_filter)
qed

lemma sort_students_sort_key:
  assumes "comparable key (set xs)"
  shows "sort_students method key xs = sort_key (key_val key) xs"
proof (rule properties_for_sort_key [symmetric])
  show "mset (sort_students method key xs) = mset xs"
    by (rule sort_students_mset)
  show "sorted (map (key_val key) (sort_students method key xs))"
    using assms by (rule sort_students_sorted)
  fix k assume "k \<in> set (sort_students method key xs)"
  show "filter (\<lambda>x. key_val key k = key_val key x) (sort_students method key xs) =
        filter (\<lambda>x. key_val key k = key_val key x) xs"
    using sort_students_filter_key [OF assms, of "key_val key k" "method"]
    by (simp add: eq_commute)
qed

lemma sort_students_twice:
  assumes "comparable key (set xs)"
  shows "sort_students method key (sort_students method key xs) = sort_students method key xs"
proof -
  have c: "comparable key (set (sort_students method key xs))"
    using assms by (simp add: sort_students_set)
  have "sort_students method key (sort_students method key xs) =
        sort_key (key_val key) (sort_students method key xs)"
    using c by (rule sort_students_sort_key)
  also have "\<dots> = sort_students method key xs"
    using sort_students_sorted [OF assms] by (rule sort_key_id_if_sorted)
  finally show ?thesis .
qed

section \<open>Running the sorts on example stores\<close>

lemma list_update_numeral_Cons:
  "(x # xs)[numeral k := y] = x # xs[pred_numeral k := y]"
  by (simp add: numeral_eq_Suc)

lemma id_st_ex [simp]: "id_st (student_ex i a) = i"
  and average_ex [simp]: "average (student_ex i a) = a"
  by (simp_all add: student_ex_def)

lemma cmp_ex_id: "cmp_students (student_ex i a) (student_ex j b) SORT_BY_ID = sint (i - j)"
  by (simp add: cmp_students_def)

lemma cmp_ex_avg:
  "cmp_students (student_ex i a) (student_ex j b) SORT_BY_AVG =
     (if flt a b then - 1 else if fgt a b then 1 else 0)"
  by (simp add: cmp_students_def)

lemmas sort_run = sort_students_def bubble_sort_def bubble_outer.simps bubble_inner.simps
  swap_students_def insertion_sort_def insertion_outer.simps insertion_inner.simps
  merge_sort_recursive.simps merge_range_def copy_out_def merge_loop.simps drain.simps
  Let_def list_update_numeral_Cons cmp_ex_id cmp_ex_avg

lemma flt_nan_left: "flt 0x7FC00000 b = False" and flt_nan_right: "flt a 0x7FC00000 = False"
  by (simp_all add: flt_def is_nan_def f_inf_bits_def fmag_def)

lemma flt_1_2: "flt 0x3F800000 0x40000000 = True" and flt_2_1: "flt 0x40000000 0x3F800000 = False"
  and flt_1_1: "flt 0x3F800000 0x3F800000 = False" and flt_2_2: "flt 0x40000000 0x40000000 = False"
  by (simp_all add: float_cmp_eval)

lemma flt_60_85: "flt 0x42700000 0x42AA0000 = True" and flt_85_60: "flt 0x42AA0000 0x42700000 = False"
  and flt_60_60: "flt 0x42700000 0x42700000 = False" and flt_85_85: "flt 0x42AA0000 0x42AA0000 = False"
  by (simp_all add: float_cmp_eval)

lemmas flt_facts = fgt_def flt_nan_left flt_nan_right flt_1_2 flt_2_1 flt_1_1 flt_2_2
  flt_60_85 flt_85_60 flt_60_60 flt_85_85

lemmas float_eq_eval = feq_def same_average_def float_cmp_eval

section \<open>The claims about sorting\<close>

text \<open>C10: whatever the method and the key, \<open>sort_students\<close> rearranges the records: the
  records after the call are the records before it, each as often as before and with all its
  fields, so their number is the same and ids that were pairwise distinct stay so.\<close>

theorem sort_students_permutes:
  "mset (sort_students method key students) = mset students \<and>
   length (sort_students method key students) = length students \<and>
   (distinct (map id_st students) \<longrightarrow> distinct (map id_st (sort_students method key students)))"
proof (intro conjI impI)
  show "mset (sort_students method key students) = mset students"
    by (rule sort_students_mset)
  show "length (sort_students method key students) = length students"
    by (rule sort_students_length)
  assume d: "distinct (map id_st students)"
  have "mset (map id_st (sort_students method key students)) = mset (map id_st students)"
    by (simp add: sort_students_mset)
  from mset_eq_imp_distinct_iff [OF this] d
  show "distinct (map id_st (sort_students method key students))" by simp
qed

theorem sort_students_permutes_witness:
  "distinct (map id_st [student_ex 5 0, student_ex 3 0, student_ex 1 0]) \<and>
   distinct (map id_st (sort_students MERGE SORT_BY_ID [student_ex 5 0, student_ex 3 0, student_ex 1 0])) \<and>
   mset (sort_students MERGE SORT_BY_ID [student_ex 5 0, student_ex 3 0, student_ex 1 0]) =
   mset [student_ex 5 0, student_ex 3 0, student_ex 1 0] \<and>
   map id_st (sort_students MERGE SORT_BY_ID [student_ex 5 0, student_ex 3 0, student_ex 1 0]) = [1, 3, 5]"
proof -
  let ?s = "[student_ex 5 0, student_ex 3 0, student_ex 1 0]"
  have d: "distinct (map id_st ?s)" by simp
  have e: "map id_st (sort_students MERGE SORT_BY_ID ?s) = [1, 3, 5]"
    by (simp add: sort_run)
  from sort_students_permutes [of MERGE SORT_BY_ID ?s] d e show ?thesis by blast
qed

lemma same_average_not_greater:
  "same_average a x \<Longrightarrow> same_average a y \<Longrightarrow> \<not> 0 < cmp_students x y SORT_BY_AVG"
  by (auto simp: same_average_def feq_def cmp_students_def fgt_def flt_def)

text \<open>Sorting by average keeps the records whose average equals any given value \<open>a\<close> in
  their order, for bubble sort and insertion sort on every store, and for merge sort on every
  store in which no average is NaN.\<close>

lemma sort_by_average_stable:
  assumes "method = BUBBLE \<or> method = INSERTION \<or> no_nan_average students"
  shows "filter (same_average a) (sort_students method SORT_BY_AVG students) =
         filter (same_average a) students"
proof -
  have P: "\<forall>x\<in>set students. \<forall>y\<in>set students. same_average a x \<and> same_average a y \<longrightarrow>
             \<not> 0 < cmp_students x y SORT_BY_AVG"
    by (auto dest: same_average_not_greater)
  consider (b) "method = BUBBLE" | (i) "method = INSERTION" | (m) "no_nan_average students"
    using assms by blast
  then show ?thesis
  proof cases
    case b
    then show ?thesis
      using P by (simp add: sort_students_def bubble_sort_def bubble_outer_filter)
  next
    case i
    then show ?thesis
      using P by (simp add: sort_students_def insertion_sort_def insertion_outer_filter)
  next
    case m
    then have c: "comparable SORT_BY_AVG (set students)" by (rule comparable_avg)
    let ?r = "sort_students method SORT_BY_AVG students"
    show ?thesis
    proof (cases "is_nan a")
      case True
      then have "\<not> same_average a s" for s by (simp add: same_average_def feq_def)
      then show ?thesis by simp
    next
      case False
      have eq: "same_average a s = (key_val SORT_BY_AVG s = fval a)" if "s \<in> set students" for s
        using that m False by (auto simp: same_average_def feq_def key_val_def no_nan_average_def)
      have "filter (same_average a) ?r = filter (\<lambda>s. key_val SORT_BY_AVG s = fval a) ?r"
        by (rule filter_cong) (auto simp: eq sort_students_set)
      also have "\<dots> = filter (\<lambda>s. key_val SORT_BY_AVG s = fval a) students"
        using c by (rule sort_students_filter_key)
      also have "\<dots> = filter (same_average a) students"
        by (rule filter_cong) (auto simp: eq)
      finally show ?thesis .
    qed
  qed
qed

lemma sort_by_average_stable_example:
  "no_nan_average [student_ex 1 0x42AA0000, student_ex 2 0x42700000,
                   student_ex 3 0x42AA0000, student_ex 4 0x42700000] \<and>
   filter (same_average 0x42AA0000)
     (sort_students MERGE SORT_BY_AVG
        [student_ex 1 0x42AA0000, student_ex 2 0x42700000,
         student_ex 3 0x42AA0000, student_ex 4 0x42700000]) =
   [student_ex 1 0x42AA0000, student_ex 3 0x42AA0000]"
proof -
  let ?s = "[student_ex 1 0x42AA0000, student_ex 2 0x42700000,
             student_ex 3 0x42AA0000, student_ex 4 0x42700000]"
  have n: "no_nan_average ?s"
    by (simp add: no_nan_average_def is_nan_def fmag_def f_inf_bits_def)
  have f: "filter (same_average 0x42AA0000) ?s = [student_ex 1 0x42AA0000, student_ex 3 0x42AA0000]"
    by (simp add: float_eq_eval)
  from sort_by_average_stable [of MERGE ?s "0x42AA0000"] n f show ?thesis by simp
qed

text \<open>C4 fails on the code: the comments of \<open>merge_range\<close> and \<open>merge_sort_recursive\<close>
  promise a stable merge and a stable sort, and bubble sort and insertion sort are stable on
  every store, but merge sort is not stable on a store with NaN averages. On the averages
  NaN, 2, NaN, 1, 1, NaN, NaN (ids 0 to 6) records 3 and 4 both hold the average 1; merge
  sort puts record 4 before record 3, bubble sort and insertion sort leave the store as it
  is.\<close>

theorem merge_sort_nan_unstable:
  "map id_st (sort_students MERGE SORT_BY_AVG
     [student_ex 0 0x7FC00000, student_ex 1 0x40000000, student_ex 2 0x7FC00000,
      student_ex 3 0x3F800000, student_ex 4 0x3F800000, student_ex 5 0x7FC00000,
      student_ex 6 0x7FC00000]) = [0, 4, 1, 2, 3, 5, 6] \<and>
   map id_st (sort_students BUBBLE SORT_BY_AVG
     [student_ex 0 0x7FC00000, student_ex 1 0x40000000, student_ex 2 0x7FC00000,
      student_ex 3 0x3F800000, student_ex 4 0x3F800000, student_ex 5 0x7FC00000,
      student_ex 6 0x7FC00000]) = [0, 1, 2, 3, 4, 5, 6] \<and>
   map id_st (sort_students INSERTION SORT_BY_AVG
     [student_ex 0 0x7FC00000, student_ex 1 0x40000000, student_ex 2 0x7FC00000,
      student_ex 3 0x3F800000, student_ex 4 0x3F800000, student_ex 5 0x7FC00000,
      student_ex 6 0x7FC00000]) = [0, 1, 2, 3, 4, 5, 6] \<and>
   same_average 0x3F800000 (student_ex 3 0x3F800000) \<and>
   same_average 0x3F800000 (student_ex 4 0x3F800000)"
proof -
  have m: "map id_st (sort_students MERGE SORT_BY_AVG
     [student_ex 0 0x7FC00000, student_ex 1 0x40000000, student_ex 2 0x7FC00000,
      student_ex 3 0x3F800000, student_ex 4 0x3F800000, student_ex 5 0x7FC00000,
      student_ex 6 0x7FC00000]) = [0, 4, 1, 2, 3, 5, 6]"
    by (simp add: sort_run flt_facts)
  have b: "map id_st (sort_students BUBBLE SORT_BY_AVG
     [student_ex 0 0x7FC00000, student_ex 1 0x40000000, student_ex 2 0x7FC00000,
      student_ex 3 0x3F800000, student_ex 4 0x3F800000, student_ex 5 0x7FC00000,
      student_ex 6 0x7FC00000]) = [0, 1, 2, 3, 4, 5, 6]"
    by (simp add: sort_run flt_facts)
  have i: "map id_st (sort_students INSERTION SORT_BY_AVG
     [student_ex 0 0x7FC00000, student_ex 1 0x40000000, student_ex 2 0x7FC00000,
      student_ex 3 0x3F800000, student_ex 4 0x3F800000, student_ex 5 0x7FC00000,
      student_ex 6 0x7FC00000]) = [0, 1, 2, 3, 4, 5, 6]"
    by (simp add: sort_run flt_facts)
  have s: "same_average 0x3F800000 (student_ex k 0x3F800000)" for k
    by (simp add: float_eq_eval)
  from m b i s show ?thesis by simp
qed


text \<open>C5 fails on the code: the by-id comparison is the difference \<open>a->id - b->id\<close>, which
  overflows for ids far apart. For the ids \<open>2147483647\<close> and \<open>-2\<close> the difference wraps to a
  negative number, every method leaves the two records as they are, and the ids are not in
  ascending order afterwards.\<close>

theorem sort_by_id_overflow_unsorted:
  "cmp_students (student_ex 2147483647 0) (student_ex (- 2) 0) SORT_BY_ID = - 2147483647 \<and>
   map id_st (sort_students BUBBLE SORT_BY_ID [student_ex 2147483647 0, student_ex (- 2) 0])
     = [2147483647, - 2] \<and>
   map id_st (sort_students INSERTION SORT_BY_ID [student_ex 2147483647 0, student_ex (- 2) 0])
     = [2147483647, - 2] \<and>
   map id_st (sort_students MERGE SORT_BY_ID [student_ex 2147483647 0, student_ex (- 2) 0])
     = [2147483647, - 2] \<and>
   sint (- 2 :: c_int) < sint (2147483647 :: c_int)"
  by (simp add: sort_run)

text \<open>Where no difference of two ids overflows, the ids are ascending after the sort.\<close>

lemma sort_by_id_ascending:
  "id_differences_fit students \<Longrightarrow>
   sorted (map (\<lambda>s. sint (id_st s)) (sort_students method SORT_BY_ID students))"
proof -
  assume "id_differences_fit students"
  then have "sorted (map (key_val SORT_BY_ID) (sort_students method SORT_BY_ID students))"
    by (intro sort_students_sorted comparable_id)
  moreover have "key_val SORT_BY_ID = (\<lambda>s. sint (id_st s))"
    by (rule ext) (simp add: key_val_def)
  ultimately show ?thesis by simp
qed

section \<open>Invariants of the store\<close>

lemma delete_student_result:
  assumes "i_d \<in> id_st ` set students"
  shows "\<exists>k<length students. id_st (students ! k) = i_d \<and> (\<forall>j<k. id_st (students ! j) \<noteq> i_d) \<and>
           delete_student students i_d = (True, take k students @ drop (Suc k) students)"
proof -
  from first_index_ex [OF assms] obtain k where
    k: "k < length students" "id_st (students ! k) = i_d" "\<forall>j<k. id_st (students ! j) \<noteq> i_d"
    by blast
  then have idx: "index_of_id students i_d = int k" by (rule index_of_id_first)
  have "butlast (shift_left students k) = take k students @ drop (Suc k) students"
    using k(1) by (simp add: shift_left_eq butlast_append)
  then have "delete_student students i_d = (True, take k students @ drop (Suc k) students)"
    by (simp add: delete_student_def idx)
  with k show ?thesis by blast
qed

lemma index_of_id_range:
  "i_d \<in> id_st ` set students \<Longrightarrow>
   \<exists>k<length students. index_of_id students i_d = int k \<and> id_st (students ! k) = i_d \<and>
      (\<forall>j<k. id_st (students ! j) \<noteq> i_d)"
  using first_index_ex index_of_id_first by blast

lemma recalc_average_fields:
  "id_st (recalc_average s) = id_st s" "name (recalc_average s) = name s"
  "grades (recalc_average s) = grades s" "average (recalc_average s) = recomputed_average (grades s)"
  by (simp_all add: recalc_average_def recomputed_average_def Let_def)

lemma add_grade_result:
  assumes "i_d \<in> id_st ` set students"
  shows "\<exists>k<length students. id_st (students ! k) = i_d \<and> (\<forall>j<k. id_st (students ! j) \<noteq> i_d) \<and>
           add_grade_to_student students i_d g =
             (True, students[k := (students ! k)\<lparr>grades := grades (students ! k) @ [g],
                                   average := recomputed_average (grades (students ! k) @ [g])\<rparr>])"
proof -
  from index_of_id_range [OF assms] obtain k where
    k: "k < length students" "index_of_id students i_d = int k" "id_st (students ! k) = i_d"
       "\<forall>j<k. id_st (students ! j) \<noteq> i_d"
    by blast
  have "recalc_average ((students ! k)\<lparr>grades := grades (students ! k) @ [g]\<rparr>) =
        (students ! k)\<lparr>grades := grades (students ! k) @ [g],
                       average := recomputed_average (grades (students ! k) @ [g])\<rparr>"
    by (simp add: recalc_average_def recomputed_average_def Let_def)
  then have "add_grade_to_student students i_d g =
             (True, students[k := (students ! k)\<lparr>grades := grades (students ! k) @ [g],
                                   average := recomputed_average (grades (students ! k) @ [g])\<rparr>])"
    using k by (simp add: add_grade_to_student_def Let_def)
  with k show ?thesis by blast
qed

lemma add_grade_absent:
  "i_d \<notin> id_st ` set students \<Longrightarrow> add_grade_to_student students i_d g = (False, students)"
  by (simp add: add_grade_to_student_def index_of_id_absent)

lemma update_name_result:
  "snd (update_student_name students i_d n) = students \<or>
   (\<exists>k<length students.
      snd (update_student_name students i_d n) = students[k := (students ! k)\<lparr>name := copy_name n\<rparr>])"
proof (cases "i_d \<in> id_st ` set students")
  case False
  then show ?thesis by (simp add: update_student_name_def index_of_id_absent)
next
  case True
  from index_of_id_range [OF True] obtain k where
    "k < length students" "index_of_id students i_d = int k" by blast
  then show ?thesis by (auto simp: update_student_name_def Let_def)
qed

lemma add_student_result:
  "add_student students i_d nm =
     (if i_d \<in> id_st ` set students then (False, students)
      else (True, students @ [\<lparr>id_st = i_d,
              name = copy_name (case nm of None \<Rightarrow> [] | Some n \<Rightarrow> n),
              grades = [], average = f_zero\<rparr>]))"
  using index_of_id_minus1_iff [of students i_d] by (auto simp: add_student_def)

lemma map_update_same:
  "k < length xs \<Longrightarrow> f y = f (xs ! k) \<Longrightarrow> map f (xs[k := y]) = map f xs"
  by (simp add: map_update list_update_same_conv)

lemma distinct_ids_add: "distinct (map id_st s) \<Longrightarrow> distinct (map id_st (snd (add_student s i_d nm)))"
  by (auto simp: add_student_result)

lemma distinct_ids_delete:
  "distinct (map id_st s) \<Longrightarrow> distinct (map id_st (snd (delete_student s i_d)))"
proof (cases "i_d \<in> id_st ` set s")
  case False
  assume "distinct (map id_st s)"
  with False show ?thesis by (simp add: delete_student_def index_of_id_absent)
next
  case True
  assume d: "distinct (map id_st s)"
  from delete_student_result [OF True] obtain k where
    k: "delete_student s i_d = (True, take k s @ drop (Suc k) s)" by blast
  have "distinct (take k (map id_st s) @ drop (Suc k) (map id_st s))"
    using d by (simp add: set_take_disj_set_drop_if_distinct)
  then show ?thesis by (simp add: k take_map drop_map)
qed

lemma distinct_ids_update:
  "distinct (map id_st s) \<Longrightarrow> distinct (map id_st (snd (update_student_name s i_d n)))"
  using update_name_result [of s i_d n] by (auto simp: map_update_same)

lemma distinct_ids_grade:
  "distinct (map id_st s) \<Longrightarrow> distinct (map id_st (snd (add_grade_to_student s i_d g)))"
proof (cases "i_d \<in> id_st ` set s")
  case False
  assume "distinct (map id_st s)"
  with False show ?thesis by (simp add: add_grade_absent)
next
  case True
  assume d: "distinct (map id_st s)"
  from add_grade_result [OF True, of g] obtain k where
    "k < length s" "add_grade_to_student s i_d g =
       (True, s[k := (s ! k)\<lparr>grades := grades (s ! k) @ [g],
                            average := recomputed_average (grades (s ! k) @ [g])\<rparr>])"
    by blast
  with d show ?thesis by (simp add: map_update_same)
qed

lemma distinct_ids_sort:
  "distinct (map id_st s) \<Longrightarrow> distinct (map id_st (sort_students m key s))"
proof -
  assume d: "distinct (map id_st s)"
  have "mset (map id_st (sort_students m key s)) = mset (map id_st s)"
    by (simp add: sort_students_mset)
  from mset_eq_imp_distinct_iff [OF this] d show ?thesis by simp
qed

lemma reachable_distinct: "reachable s \<Longrightarrow> distinct (map id_st s)"
proof (induction rule: reachable.induct)
  case r_init
  show ?case by (simp add: init_students_def)
qed (simp_all add: distinct_ids_add distinct_ids_delete distinct_ids_update distinct_ids_grade
       distinct_ids_sort)

lemma reachable_add_steps: "reachable s \<Longrightarrow> reachable (foldl add_step s calls)"
proof (induction calls arbitrary: s)
  case Nil
  then show ?case by simp
next
  case (Cons c calls)
  have "reachable (add_step s c)"
    unfolding add_step_def using Cons.prems by (rule r_add)
  from Cons.IH [OF this] show ?case by simp
qed

text \<open>C1: in every reachable store the ids are pairwise distinct, and they stay so after any
  sequence of \<open>add_student\<close> calls; a call of \<open>add_student\<close> with an id that is present returns
  false and the store it leaves is the store it found.\<close>

theorem add_student_keeps_ids_unique:
  "(reachable students \<longrightarrow>
      distinct (map id_st students) \<and> distinct (map id_st (foldl add_step students calls))) \<and>
   (i_d \<in> id_st ` set students \<longrightarrow> add_student students i_d nm = (False, students))"
proof (intro conjI impI)
  assume r: "reachable students"
  then show "distinct (map id_st students)" by (rule reachable_distinct)
  from r have "reachable (foldl add_step students calls)" by (rule reachable_add_steps)
  then show "distinct (map id_st (foldl add_step students calls))" by (rule reachable_distinct)
next
  assume "i_d \<in> id_st ` set students"
  then show "add_student students i_d nm = (False, students)"
    by (simp add: add_student_result)
qed

theorem add_student_keeps_ids_unique_witness:
  "reachable (foldl add_step init_students [(1, Some ''A''), (2, Some ''B'')]) \<and>
   map id_st (foldl add_step init_students [(1, Some ''A''), (2, Some ''B''), (1, Some ''C'')]) = [1, 2] \<and>
   distinct (map id_st (foldl add_step init_students [(1, Some ''A''), (2, Some ''B''), (1, Some ''C'')])) \<and>
   add_student (foldl add_step init_students [(1, Some ''A''), (2, Some ''B'')]) 1 (Some ''C'') =
     (False, foldl add_step init_students [(1, Some ''A''), (2, Some ''B'')])"
proof -
  let ?s = "foldl add_step init_students [(1, Some ''A''), (2, Some ''B'')]"
  have r: "reachable ?s"
    using reachable_add_steps [OF r_init] .
  have i: "map id_st ?s = [1, 2]"
    by (simp add: add_step_def add_student_result init_students_def)
  then have m: "1 \<in> id_st ` set ?s"
    by (metis image_set list.set_intros(1))
  have e: "map id_st (foldl add_step init_students [(1, Some ''A''), (2, Some ''B''), (1, Some ''C'')]) = [1, 2]"
    by (simp add: add_step_def add_student_result init_students_def)
  from add_student_keeps_ids_unique [of ?s "[(1, Some ''C'')]" 1 "Some ''C''"] r m e
  show ?thesis by (simp add: add_step_def)
qed

lemma mean_ok_update:
  "\<forall>x\<in>set s. average x = recomputed_average (grades x) \<Longrightarrow> average y = recomputed_average (grades y) \<Longrightarrow>
   \<forall>x\<in>set (s[k := y]). average x = recomputed_average (grades x)"
  by (metis insert_iff set_update_subset_insert subsetD)

lemma reachable_mean: "reachable s \<Longrightarrow> \<forall>x\<in>set s. average x = recomputed_average (grades x)"
proof (induction rule: reachable.induct)
  case r_init
  show ?case by (simp add: init_students_def)
next
  case (r_add s i_d nm)
  then show ?case by (auto simp: add_student_result recomputed_average_def)
next
  case (r_delete s i_d)
  show ?case
  proof (cases "i_d \<in> id_st ` set s")
    case False
    with r_delete.IH show ?thesis by (simp add: delete_student_def index_of_id_absent)
  next
    case True
    from delete_student_result [OF True] obtain k where
      k: "delete_student s i_d = (True, take k s @ drop (Suc k) s)" by blast
    have "set (take k s @ drop (Suc k) s) \<subseteq> set s"
      by (auto dest: in_set_takeD in_set_dropD)
    with r_delete.IH k show ?thesis by auto
  qed
next
  case (r_update s i_d newname)
  from update_name_result [of s i_d newname] show ?case
  proof
    assume "snd (update_student_name s i_d newname) = s"
    with r_update.IH show ?thesis by simp
  next
    assume "\<exists>k<length s. snd (update_student_name s i_d newname) =
              s[k := (s ! k)\<lparr>name := copy_name newname\<rparr>]"
    then obtain k where k: "k < length s"
      "snd (update_student_name s i_d newname) = s[k := (s ! k)\<lparr>name := copy_name newname\<rparr>]"
      by blast
    have "average ((s ! k)\<lparr>name := copy_name newname\<rparr>) =
          recomputed_average (grades ((s ! k)\<lparr>name := copy_name newname\<rparr>))"
      using r_update.IH k(1) by simp
    with r_update.IH show ?thesis unfolding k(2) by (rule mean_ok_update)
  qed
next
  case (r_grade s i_d g)
  show ?case
  proof (cases "i_d \<in> id_st ` set s")
    case False
    with r_grade.IH show ?thesis by (simp add: add_grade_absent)
  next
    case True
    from add_grade_result [OF True, of g] obtain k where
      k: "add_grade_to_student s i_d g =
       (True, s[k := (s ! k)\<lparr>grades := grades (s ! k) @ [g],
                            average := recomputed_average (grades (s ! k) @ [g])\<rparr>])"
      by blast
    show ?thesis
      unfolding k snd_conv using r_grade.IH by (rule mean_ok_update) simp
  qed
next
  case (r_sort s m key)
  then show ?case by (simp add: sort_students_set)
qed

lemmas float_arith_eval = fadd_def fdiv_def float_of_int_def round_units_def mk_float_def
  bit_length.simps f_nan_def f_zero_def is_inf_def Let_def float_cmp_eval

lemma recomputed_average_80_90: "recomputed_average [0x42A00000, 0x42B40000] = 0x42AA0000"
proof -
  have "fadd 0x42A00000 0x42B40000 = 0x432A0000" by (simp add: float_arith_eval)
  moreover have "float_of_int 2 = 0x40000000" by (simp add: float_arith_eval)
  moreover have "fdiv 0x432A0000 0x40000000 = 0x42AA0000" by (simp add: float_arith_eval)
  ultimately show ?thesis by (simp add: recomputed_average_def sum_grades_recursive.simps)
qed

lemmas store_run = add_student_result add_grade_to_student_def index_of_id_def
  index_of_id_loop.simps init_students_def Let_def recalc_average_fields

section \<open>Whole numbers as floats\<close>

text \<open>A whole number below \<open>2 ^ 24\<close> is a float exactly, and the sum of two such floats is
  exact while it stays below \<open>2 ^ 24\<close>.\<close>

lemma bit_length_0 [simp]: "bit_length 0 = 0"
  by (simp add: bit_length.simps)

lemma bit_length_bounds: "0 < n \<Longrightarrow> 2 ^ (bit_length n - 1) \<le> n \<and> n < 2 ^ bit_length n"
proof (induction n rule: bit_length.induct)
  case (1 n)
  show ?case
  proof (cases "n div 2 = 0")
    case True
    with 1(2) have "n = 1" by (simp add: div_eq_0_iff) 
    then show ?thesis by (simp add: bit_length.simps)
  next
    case False
    then have h: "0 < n div 2" by simp
    from "1.IH" [OF _ h] 1(2) have ih:
      "2 ^ (bit_length (n div 2) - 1) \<le> n div 2" "n div 2 < 2 ^ bit_length (n div 2)"
      by auto
    have bl: "bit_length n = Suc (bit_length (n div 2))"
      using 1(2) by (subst bit_length.simps) simp
    have pos: "0 < bit_length (n div 2)"
      using h by (subst bit_length.simps) simp
    then have e: "bit_length n - 1 = Suc (bit_length (n div 2) - 1)"
      using bl by simp
    have "2 ^ (bit_length n - 1) = 2 * 2 ^ (bit_length (n div 2) - 1)"
      unfolding e by simp
    also have "\<dots> \<le> 2 * (n div 2)" using ih(1) by simp
    also have "\<dots> \<le> n" by simp
    finally have lo: "2 ^ (bit_length n - 1) \<le> n" .
    have "n < 2 * (n div 2) + 2" by presburger
    also have "\<dots> \<le> 2 * 2 ^ bit_length (n div 2)" using ih(2) by simp
    finally have "n < 2 ^ bit_length n" unfolding bl by simp
    with lo show ?thesis by simp
  qed
qed

lemma bit_length_double: "0 < n \<Longrightarrow> bit_length (2 * n) = Suc (bit_length n)"
  by (subst bit_length.simps) simp

lemma bit_length_shift: "0 < n \<Longrightarrow> bit_length (n * 2 ^ e) = bit_length n + e"
proof (induction e)
  case 0
  then show ?case by simp
next
  case (Suc e)
  have "n * 2 ^ Suc e = 2 * (n * 2 ^ e)" by simp
  moreover have "0 < n * 2 ^ e" using Suc.prems by simp
  ultimately show ?case using Suc by (simp only: bit_length_double)
qed

lemma bit_length_le: "n < 2 ^ k \<Longrightarrow> bit_length n \<le> k"
proof (cases "n = 0")
  case True
  then show ?thesis by simp
next
  case False
  assume "n < 2 ^ k"
  moreover from bit_length_bounds [of n] False have "2 ^ (bit_length n - 1) \<le> n" by simp
  ultimately have "(2::nat) ^ (bit_length n - 1) < 2 ^ k" by (rule le_less_trans [rotated])
  then have "bit_length n - 1 < k" by (simp add: power_strict_increasing_iff)
  then show ?thesis by simp
qed

lemma bit_length_pos: "0 < n \<Longrightarrow> 0 < bit_length n"
  by (subst bit_length.simps) simp

lemma round_units_exact:
  assumes n: "0 < n" "n < 2 ^ 24" and e: "24 \<le> bit_length n + e" "bit_length n + e \<le> 277"
  shows "round_units (n * 2 ^ e) 1 =
         (bit_length n + e - 24) * 2 ^ 23 + n * 2 ^ (24 - bit_length n)"
proof -
  define b where "b = bit_length n"
  define sh where "sh = b + e - 24"
  have b: "0 < b" "b \<le> 24" using n by (simp_all add: b_def bit_length_pos bit_length_le)
  have bl: "bit_length (n * 2 ^ e) = b + e" using n by (simp add: b_def bit_length_shift)
  have es: "e = (24 - b) + sh" using e b by (simp add: sh_def b_def)
  have q: "n * 2 ^ e div 2 ^ sh = n * 2 ^ (24 - b)"
    by (subst es) (simp add: power_add)
  have r: "n * 2 ^ e mod 2 ^ sh = 0"
    by (subst es) (simp add: power_add)
  have lo: "2 ^ 23 \<le> n * 2 ^ (24 - b)"
  proof -
    have "(2::nat) ^ 23 = 2 ^ (b - 1) * 2 ^ (24 - b)"
      using b by (simp flip: power_add)
    also have "\<dots> \<le> n * 2 ^ (24 - b)"
      using bit_length_bounds [OF n(1)] by (simp add: b_def)
    finally show ?thesis .
  qed
  have hi: "n * 2 ^ (24 - b) < 2 ^ 24"
  proof -
    have "n * 2 ^ (24 - b) < 2 ^ b * 2 ^ (24 - b)"
      using bit_length_bounds [OF n(1)] by (simp add: b_def)
    also have "\<dots> = 2 ^ 24" using b by (simp flip: power_add)
    finally show ?thesis .
  qed
  have shb: "sh \<le> 253" using e by (simp add: sh_def b_def)
  have "sh * 2 ^ 23 + n * 2 ^ (24 - b) < 253 * 2 ^ 23 + 2 ^ 24"
    using shb hi by (intro add_le_less_mono mult_le_mono1) 
  then have bound: "sh * 2 ^ 23 + n * 2 ^ (24 - b) \<le> f_inf_bits"
    by (simp add: f_inf_bits_def)
  have "round_units (n * 2 ^ e) 1 = min f_inf_bits (sh * 2 ^ 23 + n * 2 ^ (24 - b))"
    unfolding round_units_def Let_def
    by (simp add: bl sh_def [symmetric] q r)
  with bound show ?thesis by (simp add: sh_def b_def)
qed

lemma units_of_bits_normal:
  assumes "2 ^ 23 \<le> q" "q < 2 ^ 24"
  shows "units_of_bits (sh * 2 ^ 23 + q) = q * 2 ^ sh"
proof -
  have d: "(sh * 2 ^ 23 + q) div 2 ^ 23 = sh + 1"
  proof -
    have "q div 2 ^ 23 = 1" using assms by (simp add: div_nat_eqI)
    then show ?thesis by simp
  qed
  have m: "(sh * 2 ^ 23 + q) mod 2 ^ 23 = q - 2 ^ 23"
  proof -
    have "q mod 2 ^ 23 = q - 2 ^ 23" using assms by (simp add: mod_nat_eqI)
    then show ?thesis by simp
  qed
  show ?thesis
    unfolding units_of_bits_def d m using assms(1) by simp
qed

lemma mk_float_pos:
  assumes "m < 2 ^ 31"
  shows "fmag (mk_float False m) = m" and "\<not> fsign (mk_float False m)"
proof -
  have u: "unat (of_nat m :: 32 word) = m"
    using assms by (simp add: unat_of_nat)
  show "fmag (mk_float False m) = m"
    using assms by (simp add: fmag_def mk_float_def u)
  show "\<not> fsign (mk_float False m)"
    using assms by (simp add: fsign_def mk_float_def u)
qed

lemma round_units_zero: "round_units 0 d = 0"
  by (simp add: round_units_def)

lemma float_of_int_zero: "float_of_int 0 = f_zero"
  by (simp add: float_of_int_def round_units_zero mk_float_def f_zero_def)

lemma float_of_int_whole:
  assumes "0 \<le> k" "k < 2 ^ 24"
  shows "fval (float_of_int k) = k * 2 ^ 149"
    and "\<not> is_nan (float_of_int k)" and "\<not> is_inf (float_of_int k)"
    and "\<not> fsign (float_of_int k)"
proof -
  define n where "n = nat k"
  have k: "k = int n" "n < 2 ^ 24" using assms by (simp_all add: n_def nat_less_iff)
  define bits where "bits = round_units (n * 2 ^ 149) 1"
  have f: "float_of_int k = mk_float False bits"
    using assms by (simp add: float_of_int_def bits_def n_def)
  have facts: "bits < f_inf_bits \<and> units_of_bits bits = n * 2 ^ 149"
  proof (cases "n = 0")
    case True
    then show ?thesis
      by (simp add: bits_def round_units_zero f_inf_bits_def units_of_bits_def)
  next
    case False
    define b where "b = bit_length n"
    have n0: "0 < n" using False by simp
    have b: "0 < b" "b \<le> 24" using n0 k(2) by (simp_all add: b_def bit_length_pos bit_length_le)
    have e: "24 \<le> bit_length n + 149" "bit_length n + 149 \<le> 277"
      using b by (simp_all add: b_def)
    have bits: "bits = (b + 125) * 2 ^ 23 + n * 2 ^ (24 - b)"
      unfolding bits_def round_units_exact [OF n0 k(2) e] by (simp add: b_def)
    have lo: "2 ^ 23 \<le> n * 2 ^ (24 - b)"
    proof -
      have "(2::nat) ^ 23 = 2 ^ (b - 1) * 2 ^ (24 - b)"
        using b by (simp flip: power_add)
      also have "\<dots> \<le> n * 2 ^ (24 - b)"
        using bit_length_bounds [OF n0] by (simp add: b_def)
      finally show ?thesis .
    qed
    have hi: "n * 2 ^ (24 - b) < 2 ^ 24"
    proof -
      have "n * 2 ^ (24 - b) < 2 ^ b * 2 ^ (24 - b)"
        using bit_length_bounds [OF n0] by (simp add: b_def)
      also have "\<dots> = 2 ^ 24" using b by (simp flip: power_add)
      finally show ?thesis .
    qed
    have "(b + 125) * 2 ^ 23 + n * 2 ^ (24 - b) < 149 * 2 ^ 23 + 2 ^ 24"
      using b hi by (intro add_le_less_mono mult_le_mono1) simp_all
    then have lt: "bits < f_inf_bits"
      by (simp add: bits f_inf_bits_def)
    have "units_of_bits bits = n * 2 ^ (24 - b) * 2 ^ (b + 125)"
      unfolding bits by (rule units_of_bits_normal [OF lo hi])
    also have "\<dots> = n * 2 ^ ((24 - b) + (b + 125))"
      by (simp only: power_add mult.assoc)
    also have "(24 - b) + (b + 125) = 149" using b by simp
    finally show ?thesis using lt by simp
  qed
  have b31: "bits < 2 ^ 31"
    using facts by (simp add: f_inf_bits_def)
  have mag: "fmag (float_of_int k) = bits" and sg: "\<not> fsign (float_of_int k)"
    unfolding f using mk_float_pos [OF b31] by simp_all
  show "\<not> fsign (float_of_int k)" by (rule sg)
  show "\<not> is_nan (float_of_int k)" using facts by (simp add: is_nan_def mag)
  show "\<not> is_inf (float_of_int k)" using facts by (simp add: is_inf_def mag)
  have fu: "funits (float_of_int k) = n * 2 ^ 149"
    unfolding funits_def mag using facts by simp
  have "int (n * 2 ^ 149) = k * 2 ^ 149"
    unfolding k(1) by simp
  then show "fval (float_of_int k) = k * 2 ^ 149"
    unfolding fval_def fu using sg by simp
qed

lemma fadd_whole:
  assumes "0 \<le> a" "0 \<le> b" "a + b < 2 ^ 24"
  shows "fadd (float_of_int a) (float_of_int b) = float_of_int (a + b)"
proof -
  have a: "a < 2 ^ 24" and b: "b < 2 ^ 24" using assms by simp_all
  note fa = float_of_int_whole [OF assms(1) a]
  note fb = float_of_int_whole [OF assms(2) b]
  have s: "fval (float_of_int a) + fval (float_of_int b) = (a + b) * 2 ^ 149"
    by (simp add: fa(1) fb(1) algebra_simps)
  show ?thesis
  proof (cases "a + b = 0")
    case True
    then have "fadd (float_of_int a) (float_of_int b) = mk_float False 0"
      using fa fb by (simp add: fadd_def s Let_def)
    with True show ?thesis
      by (simp add: float_of_int_zero mk_float_def f_zero_def)
  next
    case False
    with assms have pos: "0 < a + b" by simp
    have "fadd (float_of_int a) (float_of_int b) =
          mk_float False (round_units (nat \<bar>(a + b) * 2 ^ 149\<bar>) 1)"
      using fa fb pos by (simp add: fadd_def s Let_def)
    also have "nat \<bar>(a + b) * 2 ^ 149\<bar> = nat \<bar>a + b\<bar> * 2 ^ 149"
      using pos by (simp add: nat_mult_distrib)
    finally show ?thesis using pos by (simp add: float_of_int_def)
  qed
qed

lemma sum_list_take_le:
  "\<forall>k\<in>set ks. (0::int) \<le> k \<Longrightarrow> sum_list (take n ks) \<le> sum_list ks"
proof -
  assume a: "\<forall>k\<in>set ks. (0::int) \<le> k"
  have "sum_list ks = sum_list (take n ks) + sum_list (drop n ks)"
    by (metis append_take_drop_id sum_list_append)
  moreover have "0 \<le> sum_list (drop n ks)"
    using a by (intro sum_list_nonneg) (auto dest: in_set_dropD)
  ultimately show ?thesis by simp
qed

lemma sum_grades_recursive_whole:
  "\<forall>k\<in>set ks. 0 \<le> k \<Longrightarrow> sum_list ks < 2 ^ 24 \<Longrightarrow> n \<le> length ks \<Longrightarrow>
   sum_grades_recursive (map float_of_int ks) n = float_of_int (sum_list (take n ks))"
proof (induction n arbitrary: ks rule: less_induct)
  case (less n)
  show ?case
  proof (cases "n \<le> 1")
    case True
    show ?thesis
    proof (cases "n = 0")
      case True
      then show ?thesis
        by (subst sum_grades_recursive.simps) (simp add: float_of_int_zero)
    next
      case False
      with True have n: "n = 1" by simp
      with less.prems obtain k rest where ks: "ks = k # rest" by (cases ks) auto
      show ?thesis
        unfolding n ks by (subst sum_grades_recursive.simps) simp
    qed
  next
    case False
    define mid where "mid = n div 2"
    have mid: "mid < n" "n - mid < n" "0 < mid" using False by (auto simp: mid_def)
    let ?A = "take mid ks" and ?B = "take (n - mid) (drop mid ks)"
    have pos: "\<forall>k\<in>set (drop mid ks). 0 \<le> k"
      using less.prems(1) by (auto dest: in_set_dropD)
    have sd: "sum_list (drop mid ks) < 2 ^ 24"
    proof -
      have "sum_list ks = sum_list (take mid ks) + sum_list (drop mid ks)"
        by (metis append_take_drop_id sum_list_append)
      moreover have "0 \<le> sum_list (take mid ks)"
        using less.prems(1) by (intro sum_list_nonneg) (auto dest: in_set_takeD)
      ultimately show ?thesis using less.prems(2) by simp
    qed
    have l: "sum_grades_recursive (map float_of_int ks) mid = float_of_int (sum_list ?A)"
      using less.IH [OF mid(1) less.prems(1,2)] less.prems(3) mid by simp
    have r: "sum_grades_recursive (drop mid (map float_of_int ks)) (n - mid) =
             float_of_int (sum_list ?B)"
      using less.IH [OF mid(2) pos sd] less.prems(3) by (simp add: drop_map)
    have tn: "take n ks = ?A @ ?B"
      using mid by (metis le_add_diff_inverse less_imp_le_nat take_add)
    have a0: "0 \<le> sum_list ?A" and b0: "0 \<le> sum_list ?B"
      using less.prems(1) by (auto intro!: sum_list_nonneg dest: in_set_takeD in_set_dropD)
    have ab: "sum_list ?A + sum_list ?B < 2 ^ 24"
    proof -
      have "sum_list ?A + sum_list ?B = sum_list (take n ks)" by (simp add: tn)
      also have "\<dots> \<le> sum_list ks" using less.prems(1) by (rule sum_list_take_le)
      finally show ?thesis using less.prems(2) by simp
    qed
    have "sum_grades_recursive (map float_of_int ks) n =
          fadd (float_of_int (sum_list ?A)) (float_of_int (sum_list ?B))"
      using False l r by (subst sum_grades_recursive.simps) (simp add: Let_def mid_def)
    also have "\<dots> = float_of_int (sum_list ?A + sum_list ?B)"
      using a0 b0 ab by (rule fadd_whole)
    finally show ?thesis by (simp add: tn)
  qed
qed

lemma foldl_fadd_whole:
  "0 \<le> a \<Longrightarrow> \<forall>k\<in>set ks. 0 \<le> k \<Longrightarrow> a + sum_list ks < 2 ^ 24 \<Longrightarrow>
   foldl fadd (float_of_int a) (map float_of_int ks) = float_of_int (a + sum_list ks)"
proof (induction ks arbitrary: a)
  case Nil
  then show ?case by simp
next
  case (Cons k ks)
  have s: "0 \<le> sum_list ks" using Cons.prems(2) by (intro sum_list_nonneg) simp
  have k: "0 \<le> k" using Cons.prems(2) by simp
  have "fadd (float_of_int a) (float_of_int k) = float_of_int (a + k)"
    using Cons.prems(1) k Cons.prems(3) s by (intro fadd_whole) simp_all
  moreover have "foldl fadd (float_of_int (a + k)) (map float_of_int ks) =
                 float_of_int (a + k + sum_list ks)"
    using Cons.prems k by (intro Cons.IH) (simp_all add: add.assoc)
  ultimately show ?case by (simp add: add.assoc)
qed

section \<open>Sorting a second time\<close>

lemma sint_minus_pos: "0 < sint (x :: c_int) \<Longrightarrow> sint (- x) < 0"
proof -
  assume p: "0 < sint x"
  have "sint x < 2 ^ 31" using sint_lt [of x] by simp
  with p have "signed_take_bit 31 (- sint x) = - sint x"
    by (intro signed_take_bit_int_eq_self) simp_all
  then have "sint (- x) = - sint x" by (simp add: sint_word_ariths)
  with p show ?thesis by simp
qed

lemma cmp_students_asym: "0 < cmp_students a b key \<Longrightarrow> \<not> 0 < cmp_students b a key"
proof (cases key)
  case SORT_BY_ID
  assume "0 < cmp_students a b key"
  then have "0 < sint (id_st a - id_st b)" using SORT_BY_ID by (simp add: cmp_students_def)
  then have "sint (- (id_st a - id_st b)) < 0" by (rule sint_minus_pos)
  then show ?thesis using SORT_BY_ID by (simp add: cmp_students_def)
next
  case SORT_BY_AVG
  assume "0 < cmp_students a b key"
  then show ?thesis using SORT_BY_AVG
    by (auto simp: cmp_students_def fgt_def flt_def split: if_splits)
qed

lemma in_order_swapped: "\<not> in_order key a b \<Longrightarrow> in_order key b a"
  unfolding in_order_def using cmp_students_asym by blast

lemma bubble_inner_in_order:
  "\<forall>k. j \<le> k \<and> k < lim \<longrightarrow> in_order key (xs ! k) (xs ! Suc k) \<Longrightarrow>
   bubble_inner key xs j lim sw = (xs, sw)"
proof (induction key xs j lim sw rule: bubble_inner.induct)
  case (1 key xs j lim sw)
  show ?case
  proof (cases "j < lim")
    case False
    then show ?thesis by (subst bubble_inner.simps) simp
  next
    case True
    with 1(3) have n: "\<not> 0 < cmp_students (xs ! j) (xs ! (j + 1)) key"
      by (simp add: in_order_def)
    have "bubble_inner key xs (j + 1) lim sw = (xs, sw)"
    proof (rule "1.IH"(2) [OF True n], intro allI impI)
      fix k assume "j + 1 \<le> k \<and> k < lim"
      with 1(3) show "in_order key (xs ! k) (xs ! Suc k)" by simp
    qed
    with True n show ?thesis by (subst bubble_inner.simps) simp
  qed
qed

lemma bubble_sort_in_order:
  "successively (in_order key) xs \<Longrightarrow> bubble_sort key xs = xs"
proof -
  assume s: "successively (in_order key) xs"
  have "bubble_inner key xs 0 (length xs - 1 - 0) False = (xs, False)"
    using s by (intro bubble_inner_in_order) (auto simp: successively_conv_nth)
  then show ?thesis
    unfolding bubble_sort_def by (subst bubble_outer.simps) simp
qed

lemma insertion_outer_in_order:
  "successively (in_order key) xs \<Longrightarrow> n = length xs \<Longrightarrow> 0 < i \<Longrightarrow>
   insertion_outer key n xs i = xs"
proof (induction key n xs i rule: insertion_outer.induct)
  case (1 key n xs i)
  show ?case
  proof (cases "i < n")
    case False
    then show ?thesis by (subst insertion_outer.simps) simp
  next
    case True
    have "Suc (i - 1) < length xs" using True 1(3,4) by simp
    with 1(2) have "in_order key (xs ! (i - 1)) (xs ! Suc (i - 1))"
      by (rule successively_nth)
    then have n: "\<not> 0 < cmp_students (xs ! (i - 1)) (xs ! i) key"
      using 1(4) by (simp add: in_order_def)
    have inner: "insertion_inner key (xs ! i) xs i = xs"
      using n by (subst insertion_inner.simps) simp
    have "insertion_outer key n xs (i + 1) = xs"
      using "1.IH" [OF True] 1(2,3) inner by simp
    with True inner show ?thesis by (subst insertion_outer.simps) simp
  qed
qed

lemma insertion_sort_in_order:
  "successively (in_order key) xs \<Longrightarrow> insertion_sort key xs = xs"
  unfolding insertion_sort_def by (rule insertion_outer_in_order) simp_all

lemma insertion_inner_successively:
  assumes i: "i < length xs" and s: "successively (in_order key) (take i xs)"
  shows "successively (in_order key) (take (Suc i) (insertion_inner key (xs ! i) xs i))"
proof -
  from insertion_inner_struct [OF i, of key "xs ! i"] obtain p where
    p: "p \<le> i" "insertion_inner key (xs ! i) xs i =
           take p xs @ xs ! i # drop p (take i xs) @ drop (Suc i) xs"
       "p = 0 \<or> \<not> 0 < cmp_students (xs ! (p - 1)) (xs ! i) key"
       "\<forall>q. p \<le> q \<and> q < i \<longrightarrow> 0 < cmp_students (xs ! q) (xs ! i) key"
    by blast
  let ?A = "take p xs" and ?D = "drop p (take i xs)"
  have len: "length (?A @ xs ! i # ?D) = Suc i"
    using p(1) i by simp
  have tk: "take (Suc i) (insertion_inner key (xs ! i) xs i) = ?A @ xs ! i # ?D"
    unfolding p(2) using len
    by (metis append.assoc append_Cons append_eq_conv_conj)
  have ti: "take i xs = ?A @ ?D"
    using p(1) by (metis append_take_drop_id min.absorb2 take_take min.commute)
  have "successively (in_order key) (?A @ ?D)"
    by (subst ti [symmetric]) (rule s)
  then have sA: "successively (in_order key) ?A" and sD: "successively (in_order key) ?D"
    by (simp_all add: successively_append_iff)
  have front: "?A = [] \<or> in_order key (last ?A) (xs ! i)"
  proof (cases "p = 0")
    case True
    then show ?thesis by simp
  next
    case False
    have ne: "?A \<noteq> []" using False p(1) i by auto
    have lp: "length ?A = p" using p(1) i by simp
    have "last ?A = ?A ! (length ?A - 1)" by (rule last_conv_nth [OF ne])
    also have "\<dots> = xs ! (p - 1)" unfolding lp using False by simp
    finally have "last ?A = xs ! (p - 1)" .
    with p(3) False show ?thesis by (simp add: in_order_def)
  qed
  have behind: "?D = [] \<or> in_order key (xs ! i) (hd ?D)"
  proof (cases "p < i")
    case False
    then show ?thesis by simp
  next
    case True
    then have "hd ?D = xs ! p"
      using i by (simp add: hd_drop_conv_nth)
    moreover from p(4) True have "0 < cmp_students (xs ! p) (xs ! i) key" by simp
    ultimately show ?thesis
      using cmp_students_asym by (simp add: in_order_def)
  qed
  have "successively (in_order key) (?A @ xs ! i # ?D)"
    using sA sD front behind by (simp add: successively_append_iff successively_Cons)
  then show ?thesis by (simp only: tk)
qed

lemma insertion_outer_successively:
  "n = length xs \<Longrightarrow> successively (in_order key) (take i xs) \<Longrightarrow>
   successively (in_order key) (insertion_outer key n xs i)"
proof (induction key n xs i rule: insertion_outer.induct)
  case (1 key n xs i)
  show ?case
  proof (cases "i < n")
    case False
    with 1(2,3) show ?thesis by (subst insertion_outer.simps) simp
  next
    case True
    let ?ys = "insertion_inner key (xs ! i) xs i"
    from True 1(2) have i: "i < length xs" by simp
    have l: "length ?ys = length xs" using i by (rule insertion_inner_length)
    have s: "successively (in_order key) (take (i + 1) ?ys)"
      using insertion_inner_successively [OF i 1(3)] by simp
    from "1.IH" [OF True _ s] l 1(2) True show ?thesis
      by (subst insertion_outer.simps) simp
  qed
qed

lemma insertion_sort_successively: "successively (in_order key) (insertion_sort key xs)"
proof -
  have "successively (in_order key) (take 1 xs)"
    by (cases xs) simp_all
  then show ?thesis
    unfolding insertion_sort_def by (intro insertion_outer_successively) simp_all
qed

lemma bubble_inner_has_later:
  "lim < length xs \<Longrightarrow> j \<le> lim \<Longrightarrow> has_later key xs j \<Longrightarrow>
   has_later key (fst (bubble_inner key xs j lim sw)) lim"
proof (induction key xs j lim sw rule: bubble_inner.induct)
  case (1 key xs j lim sw)
  show ?case
  proof (cases "j < lim")
    case False
    with 1(4) have "j = lim" by simp
    with 1(5) show ?thesis by (subst bubble_inner.simps) simp
  next
    case True
    with 1(3) have j: "j < length xs" "Suc j < length xs" by auto
    show ?thesis
    proof (cases "0 < cmp_students (xs ! j) (xs ! (j + 1)) key")
      case gt: True
      let ?ys = "swap_students xs j (j + 1)"
      have h: "has_later key ?ys (j + 1)"
        unfolding has_later_def
      proof (intro allI impI)
        fix s assume s: "s < j + 1"
        show "\<exists>t. s < t \<and> t \<le> j + 1 \<and> in_order key (?ys ! s) (?ys ! t)"
        proof (cases "s = j")
          case True
          have "in_order key (xs ! (j + 1)) (xs ! j)"
            using gt cmp_students_asym by (simp add: in_order_def)
          then have "in_order key (?ys ! s) (?ys ! (j + 1))"
            using True j by (simp add: swap_nth)
          with True show ?thesis by (intro exI [of _ "j + 1"]) simp
        next
          case False
          with s have sj: "s < j" by simp
          with 1(5) obtain t where t: "s < t" "t \<le> j" "in_order key (xs ! s) (xs ! t)"
            by (auto simp: has_later_def)
          show ?thesis
          proof (cases "t = j")
            case True
            with t sj j have "in_order key (?ys ! s) (?ys ! (j + 1))"
              by (simp add: swap_nth)
            with sj show ?thesis by (intro exI [of _ "j + 1"]) simp
          next
            case False
            with t sj j have "in_order key (?ys ! s) (?ys ! t)"
              by (simp add: swap_nth)
            with t show ?thesis by (intro exI [of _ t]) simp
          qed
        qed
      qed
      have "has_later key (fst (bubble_inner key ?ys (j + 1) lim True)) lim"
        using "1.IH"(1) [OF True gt _ _ h] 1(3) True by simp
      with True gt show ?thesis by (subst bubble_inner.simps) simp
    next
      case False
      have h: "has_later key xs (j + 1)"
        unfolding has_later_def
      proof (intro allI impI)
        fix s assume s: "s < j + 1"
        show "\<exists>t. s < t \<and> t \<le> j + 1 \<and> in_order key (xs ! s) (xs ! t)"
        proof (cases "s = j")
          case True
          with False show ?thesis by (intro exI [of _ "j + 1"]) (simp add: in_order_def)
        next
          case ne: False
          with s have "s < j" by simp
          with 1(5) obtain t where "s < t" "t \<le> j" "in_order key (xs ! s) (xs ! t)"
            by (auto simp: has_later_def)
          then show ?thesis by (intro exI [of _ t]) simp
        qed
      qed
      have "has_later key (fst (bubble_inner key xs (j + 1) lim sw)) lim"
        using "1.IH"(2) [OF True False 1(3) _ h] True by simp
      with True False show ?thesis by (subst bubble_inner.simps) simp
    qed
  qed
qed

lemma bubble_inner_carried:
  "lim < length xs \<Longrightarrow> j \<le> lim \<Longrightarrow> length xs = length xs0 \<Longrightarrow> carried key xs0 xs j \<Longrightarrow>
   carried key xs0 (fst (bubble_inner key xs j lim sw)) lim"
proof (induction key xs j lim sw rule: bubble_inner.induct)
  case (1 key xs j lim sw)
  show ?case
  proof (cases "j < lim")
    case False
    with 1(4) have "j = lim" by simp
    with 1(6) show ?thesis by (subst bubble_inner.simps) simp
  next
    case True
    with 1(3) have j: "j < length xs" "Suc j < length xs" by auto
    from 1(6) obtain s where s: "s \<le> j" "xs ! j = xs0 ! s"
      "\<forall>t. s < t \<and> t \<le> j \<longrightarrow> \<not> in_order key (xs0 ! s) (xs0 ! t)"
      and rest: "\<forall>t. j < t \<and> t < length xs0 \<longrightarrow> xs ! t = xs0 ! t"
      by (auto simp: carried_def)
    have nxt: "xs ! (j + 1) = xs0 ! (j + 1)"
      using rest j 1(5) by simp
    show ?thesis
    proof (cases "0 < cmp_students (xs ! j) (xs ! (j + 1)) key")
      case gt: True
      let ?ys = "swap_students xs j (j + 1)"
      have c: "carried key xs0 ?ys (j + 1)"
        unfolding carried_def
      proof (intro conjI allI impI)
        have "\<not> in_order key (xs0 ! s) (xs0 ! t)" if "s < t \<and> t \<le> j + 1" for t
        proof (cases "t = j + 1")
          case True
          with gt s(2) nxt show ?thesis by (simp add: in_order_def)
        next
          case False
          with that s(3) show ?thesis by simp
        qed
        moreover have "?ys ! (j + 1) = xs0 ! s"
          using j s(2) by (simp add: swap_nth)
        ultimately show "\<exists>s\<le>j + 1. ?ys ! (j + 1) = xs0 ! s \<and>
            (\<forall>t. s < t \<and> t \<le> j + 1 \<longrightarrow> \<not> in_order key (xs0 ! s) (xs0 ! t))"
          using s(1) by (intro exI [of _ s]) simp
      next
        fix t assume "j + 1 < t \<and> t < length xs0"
        then show "?ys ! t = xs0 ! t"
          using rest j by (simp add: swap_nth)
      qed
      have "carried key xs0 (fst (bubble_inner key ?ys (j + 1) lim True)) lim"
        using "1.IH"(1) [OF True gt _ _ _ c] 1(3,5) True by simp
      with True gt show ?thesis by (subst bubble_inner.simps) simp
    next
      case False
      have c: "carried key xs0 xs (j + 1)"
        unfolding carried_def
      proof (intro conjI allI impI)
        show "\<exists>s\<le>j + 1. xs ! (j + 1) = xs0 ! s \<and>
            (\<forall>t. s < t \<and> t \<le> j + 1 \<longrightarrow> \<not> in_order key (xs0 ! s) (xs0 ! t))"
          using nxt by (intro exI [of _ "j + 1"]) auto
      next
        fix t assume "j + 1 < t \<and> t < length xs0"
        then show "xs ! t = xs0 ! t" using rest by simp
      qed
      have "carried key xs0 (fst (bubble_inner key xs (j + 1) lim sw)) lim"
        using "1.IH"(2) [OF True False 1(3) _ 1(5) c] True by simp
      with True False show ?thesis by (subst bubble_inner.simps) simp
    qed
  qed
qed

lemma bubble_outer_successively:
  "n = length xs \<Longrightarrow> bubble_inv key n xs i \<Longrightarrow>
   successively (in_order key) (bubble_outer key n xs i)"
proof (induction key n xs i rule: bubble_outer.induct)
  case (1 key n xs i)
  from 1(3) have tail: "\<forall>j. n - i - 1 \<le> j \<and> Suc j < n \<longrightarrow> in_order key (xs ! j) (xs ! Suc j)"
    and later: "0 < i \<longrightarrow> has_later key xs (n - i)"
    by (simp_all add: bubble_inv_def)
  show ?case
  proof (cases "i < n - 1")
    case False
    then have "n - i - 1 = 0" by simp
    with tail 1(2) have "successively (in_order key) xs"
      by (simp add: successively_conv_nth)
    with False show ?thesis by (subst bubble_outer.simps) simp
  next
    case True
    define M where "M = n - 1 - i"
    have M: "0 < M" "M < length xs" "n - i - 1 = M" "n - i = Suc M"
      using True 1(2) by (auto simp: M_def)
    obtain ys sw where r: "bubble_inner key xs 0 M False = (ys, sw)"
      by (cases "bubble_inner key xs 0 M False")
    have l: "length ys = length xs"
      using bubble_inner_length [of key xs 0 M False] r by simp
    show ?thesis
    proof (cases sw)
      case False
      have u: "ys = xs" "\<forall>k. k < M \<longrightarrow> \<not> 0 < cmp_students (xs ! k) (xs ! Suc k) key"
        using bubble_inner_unswapped [of key xs 0 M False] r False by auto
      have "in_order key (xs ! j) (xs ! Suc j)" if "Suc j < length xs" for j
      proof (cases "j < M")
        case True
        with u(2) show ?thesis by (simp add: in_order_def)
      next
        case False
        with tail that M(3) 1(2) show ?thesis by simp
      qed
      then have "successively (in_order key) xs"
        by (simp add: successively_conv_nth)
      with True r False u(1) show ?thesis
        by (subst bubble_outer.simps) (simp add: M_def)
    next
      case sw: True
      have hl: "has_later key ys M"
        using bubble_inner_has_later [OF M(2), of 0 key False] r by (simp add: has_later_def)
      have "carried key xs xs 0"
        by (auto simp: carried_def)
      then have "carried key xs ys M"
        using bubble_inner_carried [OF M(2), of 0 xs key False] r by simp
      then obtain s where s: "s \<le> M" "ys ! M = xs ! s"
        "\<forall>t. s < t \<and> t \<le> M \<longrightarrow> \<not> in_order key (xs ! s) (xs ! t)"
        and rest: "\<forall>t. M < t \<and> t < length xs \<longrightarrow> ys ! t = xs ! t"
        by (auto simp: carried_def)
      have pairs: "in_order key (ys ! j) (ys ! Suc j)" if j: "M - 1 \<le> j" "Suc j < n" for j
      proof -
        consider (a) "Suc j = M" | (b) "j = M" | (c) "M < j" using j(1) by linarith
        then show ?thesis
        proof cases
          case a
          then have "j < M" by simp
          with hl obtain t where "j < t" "t \<le> M" "in_order key (ys ! j) (ys ! t)"
            by (auto simp: has_later_def)
          with a show ?thesis by (cases "t = M") simp_all
        next
          case b
          have e: "ys ! Suc M = xs ! Suc M" using rest j(2) b 1(2) by simp
          have i0: "0 < i" using j(2) b M(4) 1(2) True by linarith
          show ?thesis
          proof (cases "s = M")
            case True
            with tail M(3) j(2) b s(2) e show ?thesis by simp
          next
            case False
            with s(1) have sM: "s < Suc M" "s < M" by simp_all
            from later i0 M(4) have "has_later key xs (Suc M)" by simp
            with sM(1) obtain t where t: "s < t" "t \<le> Suc M" "in_order key (xs ! s) (xs ! t)"
              by (auto simp: has_later_def)
            with s(3) have "t = Suc M" by (cases "t \<le> M") auto
            with t(3) s(2) e b show ?thesis by simp
          qed
        next
          case c
          then have "ys ! j = xs ! j" "ys ! Suc j = xs ! Suc j"
            using rest j(2) 1(2) by simp_all
          moreover have "in_order key (xs ! j) (xs ! Suc j)"
            using tail c M(3) j(2) by simp
          ultimately show ?thesis by simp
        qed
      qed
      have inv: "bubble_inv key n ys (i + 1)"
        unfolding bubble_inv_def
      proof (intro conjI allI impI)
        fix j assume "n - (i + 1) - 1 \<le> j \<and> Suc j < n"
        moreover have "n - (i + 1) - 1 = M - 1" by (simp add: M_def)
        ultimately show "in_order key (ys ! j) (ys ! Suc j)" using pairs by simp
      next
        have "n - (i + 1) = M" by (simp add: M_def)
        with hl show "has_later key ys (n - (i + 1))" by simp
      qed
      have "successively (in_order key) (bubble_outer key n ys (i + 1))"
        using "1.IH" [OF True _ _ _ inv, of sw] r sw 1(2) l by (simp add: M_def)
      with True r sw show ?thesis
        by (subst bubble_outer.simps) (simp add: M_def)
    qed
  qed
qed

lemma bubble_sort_successively: "successively (in_order key) (bubble_sort key xs)"
  unfolding bubble_sort_def
  by (rule bubble_outer_successively) (auto simp: bubble_inv_def)

lemma bubble_sort_twice: "bubble_sort key (bubble_sort key xs) = bubble_sort key xs"
  using bubble_sort_successively by (rule bubble_sort_in_order)

lemma insertion_sort_twice: "insertion_sort key (insertion_sort key xs) = insertion_sort key xs"
  using insertion_sort_successively by (rule insertion_sort_in_order)

text \<open>Sorting a second time with the same method and key changes nothing for bubble sort
  and for insertion sort on every store, and for merge sort provided that no average is NaN
  when the key is the average, and no difference of two ids overflows when the key is the
  id.\<close>

lemma sort_students_idempotent:
  assumes "method = MERGE \<longrightarrow>
             (key = SORT_BY_AVG \<longrightarrow> no_nan_average students) \<and>
             (key = SORT_BY_ID \<longrightarrow> id_differences_fit students)"
  shows "sort_students method key (sort_students method key students) =
         sort_students method key students"
proof (cases "method")
  case BUBBLE
  have "length (bubble_sort key students) = length students"
    by (simp add: bubble_sort_def bubble_outer_length)
  with BUBBLE show ?thesis
    by (simp add: sort_students_def bubble_sort_twice)
next
  case INSERTION
  have "length (insertion_sort key students) = length students"
    by (simp add: insertion_sort_def insertion_outer_length)
  with INSERTION show ?thesis
    by (simp add: sort_students_def insertion_sort_twice)
next
  case MERGE
  with assms have "comparable key (set students)"
    by (cases key) (simp_all add: comparable_id comparable_avg)
  then show ?thesis by (rule sort_students_twice)
qed

lemma sort_students_idempotent_example:
  "id_differences_fit [student_ex 5 0, student_ex 3 0, student_ex 1 0] \<and>
   sort_students MERGE SORT_BY_ID
     (sort_students MERGE SORT_BY_ID [student_ex 5 0, student_ex 3 0, student_ex 1 0]) =
   sort_students MERGE SORT_BY_ID [student_ex 5 0, student_ex 3 0, student_ex 1 0] \<and>
   no_nan_average [student_ex 1 0x42AA0000, student_ex 2 0x42700000] \<and>
   sort_students MERGE SORT_BY_AVG
     (sort_students MERGE SORT_BY_AVG [student_ex 1 0x42AA0000, student_ex 2 0x42700000]) =
   sort_students MERGE SORT_BY_AVG [student_ex 1 0x42AA0000, student_ex 2 0x42700000] \<and>
   sort_students BUBBLE SORT_BY_AVG
     (sort_students BUBBLE SORT_BY_AVG [student_ex 1 0x7FC00000, student_ex 2 0x42700000]) =
   sort_students BUBBLE SORT_BY_AVG [student_ex 1 0x7FC00000, student_ex 2 0x42700000]"
proof -
  let ?s = "[student_ex 5 0, student_ex 3 0, student_ex 1 0]"
  let ?t = "[student_ex 1 0x42AA0000, student_ex 2 0x42700000]"
  let ?u = "[student_ex 1 0x7FC00000, student_ex 2 0x42700000]"
  have f: "id_differences_fit ?s"
    by (simp add: id_differences_fit_def)
  have n: "no_nan_average ?t"
    by (simp add: no_nan_average_def is_nan_def fmag_def f_inf_bits_def)
  from sort_students_idempotent [of MERGE SORT_BY_ID ?s]
    sort_students_idempotent [of MERGE SORT_BY_AVG ?t]
    sort_students_idempotent [of BUBBLE SORT_BY_AVG ?u] f n
  show ?thesis by simp
qed

text \<open>C9 fails on the code: a second merge sort changes the order again, by average on a
  store with NaN averages and by id on a store with ids whose differences overflow in the
  comparator (the defect of C5), while bubble sort and insertion sort change nothing the
  second time on any store. On the averages NaN, NaN, 2, 1, NaN, 1 (ids 0 to 5) merge sort
  gives the ids 0, 1, 3, 2, 4, 5 and then 0, 1, 3, 5, 2, 4; on the ids -2147483648,
  -1073741825, 1 it gives 1, -2147483648, -1073741825 and then -1073741825, 1,
  -2147483648.\<close>

theorem merge_sort_not_idempotent:
  "map id_st (sort_students MERGE SORT_BY_AVG
     [student_ex 0 0x7FC00000, student_ex 1 0x7FC00000, student_ex 2 0x40000000,
      student_ex 3 0x3F800000, student_ex 4 0x7FC00000, student_ex 5 0x3F800000])
     = [0, 1, 3, 2, 4, 5] \<and>
   map id_st (sort_students MERGE SORT_BY_AVG (sort_students MERGE SORT_BY_AVG
     [student_ex 0 0x7FC00000, student_ex 1 0x7FC00000, student_ex 2 0x40000000,
      student_ex 3 0x3F800000, student_ex 4 0x7FC00000, student_ex 5 0x3F800000]))
     = [0, 1, 3, 5, 2, 4] \<and>
   sort_students BUBBLE SORT_BY_AVG (sort_students BUBBLE SORT_BY_AVG
     [student_ex 0 0x7FC00000, student_ex 1 0x7FC00000, student_ex 2 0x40000000,
      student_ex 3 0x3F800000, student_ex 4 0x7FC00000, student_ex 5 0x3F800000])
     = sort_students BUBBLE SORT_BY_AVG
     [student_ex 0 0x7FC00000, student_ex 1 0x7FC00000, student_ex 2 0x40000000,
      student_ex 3 0x3F800000, student_ex 4 0x7FC00000, student_ex 5 0x3F800000] \<and>
   sort_students INSERTION SORT_BY_AVG (sort_students INSERTION SORT_BY_AVG
     [student_ex 0 0x7FC00000, student_ex 1 0x7FC00000, student_ex 2 0x40000000,
      student_ex 3 0x3F800000, student_ex 4 0x7FC00000, student_ex 5 0x3F800000])
     = sort_students INSERTION SORT_BY_AVG
     [student_ex 0 0x7FC00000, student_ex 1 0x7FC00000, student_ex 2 0x40000000,
      student_ex 3 0x3F800000, student_ex 4 0x7FC00000, student_ex 5 0x3F800000] \<and>
   map id_st (sort_students MERGE SORT_BY_ID
     [student_ex (- 2147483648) 0, student_ex (- 1073741825) 0, student_ex 1 0])
     = [1, - 2147483648, - 1073741825] \<and>
   map id_st (sort_students MERGE SORT_BY_ID (sort_students MERGE SORT_BY_ID
     [student_ex (- 2147483648) 0, student_ex (- 1073741825) 0, student_ex 1 0]))
     = [- 1073741825, 1, - 2147483648]"
proof -
  let ?s = "[student_ex 0 0x7FC00000, student_ex 1 0x7FC00000, student_ex 2 0x40000000,
      student_ex 3 0x3F800000, student_ex 4 0x7FC00000, student_ex 5 0x3F800000]"
  have a: "sort_students MERGE SORT_BY_AVG ?s =
     [student_ex 0 0x7FC00000, student_ex 1 0x7FC00000, student_ex 3 0x3F800000,
      student_ex 2 0x40000000, student_ex 4 0x7FC00000, student_ex 5 0x3F800000]"
    by (simp add: sort_run flt_facts)
  have b: "map id_st (sort_students MERGE SORT_BY_AVG
     [student_ex 0 0x7FC00000, student_ex 1 0x7FC00000, student_ex 3 0x3F800000,
      student_ex 2 0x40000000, student_ex 4 0x7FC00000, student_ex 5 0x3F800000])
     = [0, 1, 3, 5, 2, 4]"
    by (simp add: sort_run flt_facts)
  have c: "sort_students MERGE SORT_BY_ID
     [student_ex (- 2147483648) 0, student_ex (- 1073741825) 0, student_ex 1 0] =
     [student_ex 1 0, student_ex (- 2147483648) 0, student_ex (- 1073741825) 0]"
    by (simp add: sort_run)
  have d: "map id_st (sort_students MERGE SORT_BY_ID
     [student_ex 1 0, student_ex (- 2147483648) 0, student_ex (- 1073741825) 0])
     = [- 1073741825, 1, - 2147483648]"
    by (simp add: sort_run)
  have e: "sort_students BUBBLE SORT_BY_AVG (sort_students BUBBLE SORT_BY_AVG ?s) =
           sort_students BUBBLE SORT_BY_AVG ?s"
    by (rule sort_students_idempotent) simp
  have f: "sort_students INSERTION SORT_BY_AVG (sort_students INSERTION SORT_BY_AVG ?s) =
           sort_students INSERTION SORT_BY_AVG ?s"
    by (rule sort_students_idempotent) simp
  show ?thesis
    unfolding a c using b d e f by simp
qed

section \<open>The error of one rounding\<close>

lemma is_finite_iff: "is_finite w = (\<not> is_nan w \<and> \<not> is_inf w)"
  by (auto simp: is_finite_def is_nan_def is_inf_def)

lemma units_of_bits_shifted:
  assumes "(sh = 0 \<and> q \<le> 2 ^ 24) \<or> (2 ^ 23 \<le> q \<and> q \<le> 2 ^ 24)"
  shows "units_of_bits (sh * 2 ^ 23 + q) = q * 2 ^ sh"
proof -
  consider (sub) "sh = 0" "q < 2 ^ 23" | (nor) "2 ^ 23 \<le> q" "q < 2 ^ 24" | (top) "q = 2 ^ 24"
    using assms by linarith
  then show ?thesis
  proof cases
    case sub
    then show ?thesis by (simp add: units_of_bits_def)
  next
    case nor
    then show ?thesis by (rule units_of_bits_normal)
  next
    case top
    have "sh * 2 ^ 23 + q = (sh + 1) * 2 ^ 23 + 2 ^ 23"
      by (simp add: top)
    then have "units_of_bits (sh * 2 ^ 23 + q) = units_of_bits ((sh + 1) * 2 ^ 23 + 2 ^ 23)"
      by (rule arg_cong)
    also have "\<dots> = 2 ^ 23 * 2 ^ (sh + 1)"
      by (rule units_of_bits_normal) simp_all
    also have "\<dots> = q * 2 ^ sh"
      by (simp add: top)
    finally show ?thesis .
  qed
qed

lemma round_units_parts:
  assumes den: "0 < den"
  shows "\<exists>sh q. round_units num den = min f_inf_bits (sh * 2 ^ 23 + q) \<and>
           sh = bit_length (num div den) - 24 \<and>
           ((sh = 0 \<and> q \<le> 2 ^ 24) \<or> (2 ^ 23 \<le> q \<and> q \<le> 2 ^ 24)) \<and>
           2 * \<bar>int q * int (den * 2 ^ sh) - int num\<bar> \<le> int (den * 2 ^ sh) \<and>
           (sh = 0 \<or> 2 ^ 23 * (den * 2 ^ sh) \<le> num)"
proof -
  define Q where "Q = num div den"
  define sh where "sh = bit_length Q - 24"
  define d where "d = den * 2 ^ sh"
  define q where "q = num div d"
  define r where "r = num mod d"
  define q' where "q' = (if d < 2 * r \<or> (2 * r = d \<and> odd q) then q + 1 else q)"
  have dpos: "0 < d" using den by (simp add: d_def)
  have ru: "round_units num den = min f_inf_bits (sh * 2 ^ 23 + q')"
    unfolding round_units_def Let_def q'_def r_def q_def d_def sh_def Q_def by simp
  have qQ: "q = Q div 2 ^ sh"
    unfolding q_def d_def Q_def by (simp add: div_mult2_eq)
  have num: "num = q * d + r" and rd: "r < d"
    using dpos by (simp_all add: q_def r_def)
  have qb: "(sh = 0 \<and> q < 2 ^ 24) \<or> (0 < sh \<and> 2 ^ 23 \<le> q \<and> q < 2 ^ 24)"
  proof (cases "sh = 0")
    case True
    have "Q < 2 ^ 24"
    proof (cases "Q = 0")
      case False
      then have "Q < 2 ^ bit_length Q" using bit_length_bounds [of Q] by simp
      also have "(2::nat) ^ bit_length Q \<le> 2 ^ 24"
        using True by (intro power_increasing) (simp_all add: sh_def)
      finally show ?thesis .
    qed simp
    with True show ?thesis by (simp add: qQ)
  next
    case False
    then have bl: "bit_length Q = sh + 24" by (simp add: sh_def)
    then have Qpos: "0 < Q" by (cases "Q = 0") simp_all
    have bl1: "bit_length Q - 1 = sh + 23" using bl by simp
    have lo: "2 ^ (sh + 23) \<le> Q"
      using bit_length_bounds [OF Qpos] unfolding bl1 by blast
    have hi: "Q < 2 ^ (sh + 24)"
      using bit_length_bounds [OF Qpos] unfolding bl by blast
    have "2 ^ 23 * 2 ^ sh \<le> Q" using lo by (simp add: power_add mult.commute)
    then have a: "2 ^ 23 \<le> Q div 2 ^ sh"
      by (simp add: less_eq_div_iff_mult_less_eq)
    have "Q < 2 ^ 24 * 2 ^ sh" using hi by (simp add: power_add mult.commute)
    then have b: "Q div 2 ^ sh < 2 ^ 24"
      by (simp add: less_mult_imp_div_less)
    from a b False show ?thesis by (simp add: qQ)
  qed
  have q'b: "(sh = 0 \<and> q' \<le> 2 ^ 24) \<or> (2 ^ 23 \<le> q' \<and> q' \<le> 2 ^ 24)"
    using qb by (auto simp: q'_def)
  have err: "2 * \<bar>int q' * int d - int num\<bar> \<le> int d"
  proof (cases "d < 2 * r \<or> (2 * r = d \<and> odd q)")
    case True
    then have q': "q' = q + 1" and h: "d \<le> 2 * r" by (auto simp: q'_def)
    have "int q' * int d - int num = int d - int r"
      unfolding q' num by (simp add: algebra_simps)
    with h rd show ?thesis by simp
  next
    case False
    then have q': "q' = q" and h: "2 * r \<le> d" by (auto simp: q'_def)
    have "int q' * int d - int num = - int r"
      unfolding q' num by (simp add: algebra_simps)
    with h show ?thesis by simp
  qed
  have big: "sh = 0 \<or> 2 ^ 23 * d \<le> num"
  proof (cases "sh = 0")
    case False
    with qb have "2 ^ 23 \<le> q" by simp
    then have "2 ^ 23 * d \<le> q * d" by (rule mult_le_mono1)
    also have "\<dots> \<le> num" using num by simp
    finally show ?thesis by simp
  qed simp
  show ?thesis
    using ru q'b err big unfolding d_def sh_def Q_def by blast
qed

lemma round_units_small:
  assumes den: "0 < den" and small: "num < 2 ^ 276 * den"
  shows "round_units num den < f_inf_bits"
proof -
  from round_units_parts [OF den, of num] obtain sh q where
    ru: "round_units num den = min f_inf_bits (sh * 2 ^ 23 + q)"
    and sh: "sh = bit_length (num div den) - 24"
    and qb: "(sh = 0 \<and> q \<le> 2 ^ 24) \<or> (2 ^ 23 \<le> q \<and> q \<le> 2 ^ 24)"
    by blast
  have "num div den < 2 ^ 276"
    using small den by (simp add: less_mult_imp_div_less)
  then have "bit_length (num div den) \<le> 276" by (rule bit_length_le)
  then have shb: "sh \<le> 252" by (simp add: sh)
  have q24: "q \<le> 2 ^ 24" using qb by auto
  have "sh * 2 ^ 23 + q \<le> 252 * 2 ^ 23 + 2 ^ 24"
    using shb q24 by (intro add_mono mult_le_mono1)
  then have "sh * 2 ^ 23 + q < f_inf_bits" by (simp add: f_inf_bits_def)
  then show ?thesis by (simp add: ru)
qed

lemma round_units_le: "round_units num den \<le> f_inf_bits"
  by (simp add: round_units_def Let_def)

lemma round_units_error:
  assumes den: "0 < den" and fin: "round_units num den < f_inf_bits"
  shows "2 ^ 24 * \<bar>int (units_of_bits (round_units num den)) * int den - int num\<bar>
           \<le> int num + 2 ^ 23 * int den"
    and "den = 1 \<Longrightarrow> 2 ^ 24 * \<bar>int (units_of_bits (round_units num den)) - int num\<bar> \<le> int num"
proof -
  from round_units_parts [OF den, of num] obtain sh q where
    ru: "round_units num den = min f_inf_bits (sh * 2 ^ 23 + q)"
    and qb: "(sh = 0 \<and> q \<le> 2 ^ 24) \<or> (2 ^ 23 \<le> q \<and> q \<le> 2 ^ 24)"
    and err: "2 * \<bar>int q * int (den * 2 ^ sh) - int num\<bar> \<le> int (den * 2 ^ sh)"
    and big: "sh = 0 \<or> 2 ^ 23 * (den * 2 ^ sh) \<le> num"
    by blast
  have bits: "round_units num den = sh * 2 ^ 23 + q"
    using fin by (simp add: ru min_def split: if_splits)
  define e where "e = \<bar>int q * int (den * 2 ^ sh) - int num\<bar>"
  have u: "int (units_of_bits (round_units num den)) * int den = int q * int (den * 2 ^ sh)"
    unfolding bits units_of_bits_shifted [OF qb] by (simp add: algebra_simps)
  have e2: "2 * e \<le> int (den * 2 ^ sh)" using err by (simp add: e_def)
  have e0: "0 \<le> e" by (simp add: e_def)
  have main: "2 ^ 24 * e \<le> int num + 2 ^ 23 * int den \<and> (den = 1 \<longrightarrow> 2 ^ 24 * e \<le> int num)"
  proof (cases "sh = 0")
    case True
    with e2 have a: "2 * e \<le> int den" by simp
    then have "2 ^ 24 * e \<le> 2 ^ 23 * int den" by simp
    moreover have "den = 1 \<longrightarrow> e = 0" using a e0 by auto
    ultimately show ?thesis by auto
  next
    case False
    with big have "2 ^ 23 * (den * 2 ^ sh) \<le> num" by simp
    then have "2 ^ 23 * int (den * 2 ^ sh) \<le> int num"
      by (metis of_nat_le_iff of_nat_mult of_nat_numeral of_nat_power)
    with e2 have "2 ^ 24 * e \<le> int num" by simp
    then show ?thesis by simp
  qed
  show "2 ^ 24 * \<bar>int (units_of_bits (round_units num den)) * int den - int num\<bar>
           \<le> int num + 2 ^ 23 * int den"
    unfolding u using main by (simp add: e_def)
  show "2 ^ 24 * \<bar>int (units_of_bits (round_units num den)) - int num\<bar> \<le> int num" if "den = 1"
    using u main that by (simp add: e_def)
qed

lemma mk_float_fields:
  assumes "m < 2 ^ 31"
  shows "fmag (mk_float neg m) = m" and "fsign (mk_float neg m) = neg"
proof -
  have u: "unat (of_nat m :: 32 word) = m"
    using assms by (simp add: unat_of_nat)
  have "(2 ^ 31 + m) mod 2 ^ LENGTH(32) = 2 ^ 31 + m"
    using assms by simp
  then have v: "unat (of_nat (2 ^ 31 + m) :: 32 word) = 2 ^ 31 + m"
    by (simp only: unat_of_nat)
  show "fmag (mk_float neg m) = m"
  proof (cases neg)
    case True
    have "fmag (mk_float True m) = (2 ^ 31 + m) mod 2 ^ 31"
      by (simp only: fmag_def mk_float_def if_True v)
    with True assms show ?thesis by simp
  next
    case False
    have "fmag (mk_float False m) = m mod 2 ^ 31"
      by (simp only: fmag_def mk_float_def if_False u)
    with False assms show ?thesis by simp
  qed
  show "fsign (mk_float neg m) = neg"
  proof (cases neg)
    case True
    have "fsign (mk_float True m) = (2 ^ 31 \<le> 2 ^ 31 + m)"
      by (simp only: fsign_def mk_float_def if_True v)
    with True show ?thesis by simp
  next
    case False
    have "fsign (mk_float False m) = (2 ^ 31 \<le> m)"
      by (simp only: fsign_def mk_float_def if_False u)
    with False assms show ?thesis by simp
  qed
qed

lemma round_units_31: "round_units num den < 2 ^ 31"
proof -
  have "round_units num den \<le> f_inf_bits" by (rule round_units_le)
  then show ?thesis by (simp add: f_inf_bits_def)
qed

lemma mk_float_value:
  assumes "m < 2 ^ 31"
  shows "is_finite (mk_float neg m) = (m < f_inf_bits)"
    and "fval (mk_float neg m) = (if neg then - int (units_of_bits m) else int (units_of_bits m))"
proof -
  note f = mk_float_fields [OF assms, of neg]
  show "is_finite (mk_float neg m) = (m < f_inf_bits)"
    by (simp add: is_finite_def f(1))
  show "fval (mk_float neg m) = (if neg then - int (units_of_bits m) else int (units_of_bits m))"
    unfolding fval_def funits_def f by (rule refl)
qed

lemma units_of_bits_0: "units_of_bits 0 = 0"
  by (simp add: units_of_bits_def)

text \<open>A NaN stays a NaN when its quiet bit is set, and no operation with an operand that
  is not finite has a finite result.\<close>

lemma fmag_quiet_nan: "fmag w \<le> fmag (quiet_nan w)"
proof -
  have u: "uint (set_bit 22 w) = set_bit 22 (uint w)"
    by (simp add: set_bit_def uint_or)
  have f: "int (fmag v) = take_bit 31 (uint v)" for v :: float
    by (simp add: fmag_def take_bit_eq_mod zmod_int)
  have "take_bit 31 (uint w) \<le> set_bit 22 (take_bit 31 (uint w))"
    by (rule set_bit_greater_eq)
  also have "\<dots> = take_bit 31 (set_bit 22 (uint w))"
    by (simp add: take_bit_set_bit_eq)
  finally have "int (fmag w) \<le> int (fmag (set_bit 22 w))"
    unfolding f u .
  then show ?thesis by (simp add: quiet_nan_def)
qed

lemma quiet_nan_not_finite: "is_nan w \<Longrightarrow> \<not> is_finite (quiet_nan w)"
  using fmag_quiet_nan [of w] by (simp add: is_nan_def is_finite_def)

lemma f_nan_is_nan: "is_nan f_nan"
  by (simp add: is_nan_def f_nan_def fmag_def f_inf_bits_def)

lemma fadd_not_finite:
  assumes "\<not> is_finite a \<or> \<not> is_finite b"
  shows "\<not> is_finite (fadd a b)"
proof -
  consider (na) "is_nan a" | (nb) "\<not> is_nan a" "is_nan b"
    | (ia) "\<not> is_nan a" "\<not> is_nan b" "is_inf a"
    | (ib) "\<not> is_nan a" "\<not> is_nan b" "\<not> is_inf a" "is_inf b"
    using assms by (auto simp: is_finite_iff)
  then show ?thesis
  proof cases
    case na
    then show ?thesis by (simp add: fadd_def quiet_nan_not_finite)
  next
    case nb
    then show ?thesis by (simp add: fadd_def quiet_nan_not_finite)
  next
    case ia
    then show ?thesis by (simp add: fadd_def f_nan_is_nan is_finite_iff)
  next
    case ib
    then show ?thesis by (simp add: fadd_def is_finite_iff)
  qed
qed

lemma fadd_bits:
  assumes a: "is_finite a" and b: "is_finite b" and x: "fval a + fval b \<noteq> 0"
  shows "fadd a b = mk_float (fval a + fval b < 0) (round_units (nat \<bar>fval a + fval b\<bar>) 1)"
  using assms by (simp add: fadd_def is_finite_iff Let_def)

lemma fadd_error:
  assumes fin: "is_finite (fadd a b)"
  shows "is_finite a" and "is_finite b"
    and "2 ^ 24 * \<bar>fval (fadd a b) - (fval a + fval b)\<bar> \<le> \<bar>fval a + fval b\<bar>"
proof -
  show a: "is_finite a" and b: "is_finite b"
    using fin fadd_not_finite [of a b] by blast+
  define x where "x = fval a + fval b"
  have "2 ^ 24 * \<bar>fval (fadd a b) - x\<bar> \<le> \<bar>x\<bar>"
  proof (cases "x = 0")
    case True
    have "fadd a b = mk_float (fsign a \<and> fsign b) 0"
      using a b True by (simp add: fadd_def x_def is_finite_iff)
    then have "fval (fadd a b) = 0"
      by (simp add: mk_float_value(2) units_of_bits_0)
    with True show ?thesis by simp
  next
    case False
    define bits where "bits = round_units (nat \<bar>x\<bar>) 1"
    have r: "fadd a b = mk_float (x < 0) bits"
      using fadd_bits [OF a b] False by (simp add: x_def bits_def)
    have b31: "bits < 2 ^ 31" unfolding bits_def by (rule round_units_31)
    have lt: "bits < f_inf_bits"
      using fin unfolding r by (simp add: mk_float_value(1) [OF b31])
    have one: "(0::nat) < 1" by simp
    have er: "2 ^ 24 * \<bar>int (units_of_bits bits) - int (nat \<bar>x\<bar>)\<bar> \<le> int (nat \<bar>x\<bar>)"
      using lt unfolding bits_def by (intro round_units_error(2) [OF one]) simp_all
    have fv: "fval (fadd a b) = (if x < 0 then - int (units_of_bits bits) else int (units_of_bits bits))"
      unfolding r by (rule mk_float_value(2) [OF b31])
    have "\<bar>fval (fadd a b) - x\<bar> = \<bar>int (units_of_bits bits) - int (nat \<bar>x\<bar>)\<bar>"
      unfolding fv by (cases "x < 0") simp_all
    with er show ?thesis by simp
  qed
  then show "2 ^ 24 * \<bar>fval (fadd a b) - (fval a + fval b)\<bar> \<le> \<bar>fval a + fval b\<bar>"
    by (simp add: x_def)
qed

lemma fadd_small:
  assumes a: "is_finite a" and b: "is_finite b" and s: "\<bar>fval a + fval b\<bar> < 2 ^ 276"
  shows "is_finite (fadd a b)"
proof (cases "fval a + fval b = 0")
  case True
  have "fadd a b = mk_float (fsign a \<and> fsign b) 0"
    using a b True by (simp add: fadd_def is_finite_iff)
  then show ?thesis by (simp add: mk_float_value(1) f_inf_bits_def)
next
  case False
  have sm: "nat \<bar>fval a + fval b\<bar> < 2 ^ 276 * 1"
    using s by (simp add: nat_less_iff)
  have "round_units (nat \<bar>fval a + fval b\<bar>) 1 < f_inf_bits"
    by (rule round_units_small [OF _ sm]) simp
  then show ?thesis
    unfolding fadd_bits [OF a b False] by (simp add: mk_float_value(1) [OF round_units_31])
qed

text \<open>The count of the grades as a float: exact below \<open>2 ^ 24\<close>, rounded to 24 bits
  above.\<close>

lemma float_of_int_count:
  assumes n: "0 < n" "n < 2 ^ 31"
  shows "\<exists>m. 0 < m \<and> funits (float_of_int (int n)) = m * 2 ^ 149 \<and>
             2 ^ 24 * \<bar>int m - int n\<bar> \<le> int n \<and>
             is_finite (float_of_int (int n)) \<and> \<not> fsign (float_of_int (int n))"
proof -
  define num where "num = n * 2 ^ 149"
  define bits where "bits = round_units num 1"
  have f: "float_of_int (int n) = mk_float False bits"
    by (simp add: float_of_int_def bits_def num_def nat_mult_distrib)
  have one: "(0::nat) < 1" by simp
  have "n * 2 ^ 149 < 2 ^ 31 * 2 ^ 149" using n by simp
  also have "\<dots> \<le> (2::nat) ^ 276 * 1" by simp
  finally have sm: "num < 2 ^ 276 * 1" by (simp add: num_def)
  have lt: "bits < f_inf_bits"
    unfolding bits_def by (rule round_units_small [OF one sm])
  have b31: "bits < 2 ^ 31" unfolding bits_def by (rule round_units_31)
  have fin: "is_finite (float_of_int (int n))"
    unfolding f using lt by (simp add: mk_float_value(1) [OF b31])
  have sg: "\<not> fsign (float_of_int (int n))"
    unfolding f by (simp add: mk_float_fields(2) [OF b31])
  have fu: "funits (float_of_int (int n)) = units_of_bits bits"
    unfolding f funits_def by (simp add: mk_float_fields(1) [OF b31])
  have er: "2 ^ 24 * \<bar>int (units_of_bits bits) - int num\<bar> \<le> int num"
    using lt unfolding bits_def by (intro round_units_error(2) [OF one]) simp_all
  have ex: "\<exists>m. units_of_bits bits = m * 2 ^ 149"
  proof -
    from round_units_parts [OF one, of num] obtain sh q where
      ru: "round_units num 1 = min f_inf_bits (sh * 2 ^ 23 + q)"
      and sh: "sh = bit_length (num div 1) - 24"
      and qb: "(sh = 0 \<and> q \<le> 2 ^ 24) \<or> (2 ^ 23 \<le> q \<and> q \<le> 2 ^ 24)"
      by blast
    have bq: "bits = sh * 2 ^ 23 + q"
      using lt unfolding bits_def ru by (simp add: min_def split: if_splits)
    have u: "units_of_bits bits = q * 2 ^ sh"
      unfolding bq by (rule units_of_bits_shifted [OF qb])
    show ?thesis
    proof (cases "n < 2 ^ 24")
      case True
      then have "int n < 2 ^ 24" by simp
      from float_of_int_whole(1,4) [OF _ this]
      have "int (funits (float_of_int (int n))) = int n * 2 ^ 149"
        by (simp add: fval_def)
      also have "\<dots> = int (n * 2 ^ 149)" by simp
      finally have "funits (float_of_int (int n)) = n * 2 ^ 149"
        by (simp only: of_nat_eq_iff)
      then show ?thesis unfolding fu by blast
    next
      case False
      then have "2 ^ 24 \<le> n" by simp
      have "24 < bit_length n"
      proof (rule ccontr)
        assume "\<not> 24 < bit_length n"
        then have "bit_length n \<le> 24" by simp
        then have "(2::nat) ^ bit_length n \<le> 2 ^ 24" by (intro power_increasing) simp_all
        with bit_length_bounds [OF n(1)] have "n < 2 ^ 24" by linarith
        with False show False by simp
      qed
      moreover have "bit_length num = bit_length n + 149"
        unfolding num_def using n(1) by (rule bit_length_shift)
      ultimately have "149 \<le> sh" by (simp add: sh)
      then obtain t where t: "sh = t + 149" by (metis le_add_diff_inverse2)
      have "units_of_bits bits = (q * 2 ^ t) * 2 ^ 149"
        unfolding u t by (simp add: power_add)
      then show ?thesis by blast
    qed
  qed
  then obtain m where m: "units_of_bits bits = m * 2 ^ 149" by blast
  define P where "P = (2::int) ^ 149"
  have Ppos: "0 < P" by (simp add: P_def)
  have iu: "int (units_of_bits bits) = int m * P" and inum: "int num = int n * P"
    by (simp_all add: m num_def P_def)
  have "2 ^ 24 * \<bar>(int m - int n) * P\<bar> \<le> int n * P"
    using er unfolding iu inum by (simp add: algebra_simps)
  moreover have "\<bar>(int m - int n) * P\<bar> = \<bar>int m - int n\<bar> * P"
    using Ppos by (simp add: abs_mult)
  ultimately have "(2 ^ 24 * \<bar>int m - int n\<bar>) * P \<le> int n * P"
    by (simp only: mult.assoc)
  then have e: "2 ^ 24 * \<bar>int m - int n\<bar> \<le> int n"
    using Ppos by (rule mult_right_le_imp_le)
  have "0 < m"
  proof (rule ccontr)
    assume "\<not> 0 < m"
    then have "m = 0" by simp
    with e n(1) show False by simp
  qed
  with m e fin sg show ?thesis unfolding fu by blast
qed

lemma fdiv_not_finite:
  assumes a: "\<not> is_finite a" and b: "is_finite b"
  shows "\<not> is_finite (fdiv a b)"
proof (cases "is_nan a")
  case True
  then show ?thesis by (simp add: fdiv_def quiet_nan_not_finite)
next
  case False
  with a have ia: "is_inf a" by (simp add: is_finite_iff)
  have f31: "f_inf_bits < 2 ^ 31" by (simp add: f_inf_bits_def)
  have "fdiv a b = mk_float (fsign a \<noteq> fsign b) f_inf_bits"
    using False ia b by (simp add: fdiv_def is_finite_iff)
  then show ?thesis by (simp add: mk_float_value(1) [OF f31])
qed

lemma fdiv_count_bits:
  assumes a: "is_finite a" and n: "0 < n" "n < 2 ^ 31"
  shows "\<exists>m. 0 < m \<and> 2 ^ 24 * \<bar>int m - int n\<bar> \<le> int n \<and>
           fdiv a (float_of_int (int n)) =
             mk_float (fsign a) (round_units (funits a * 2 ^ 149) (m * 2 ^ 149))"
proof -
  from float_of_int_count [OF n] obtain m where
    m: "0 < m" "funits (float_of_int (int n)) = m * 2 ^ 149"
    "2 ^ 24 * \<bar>int m - int n\<bar> \<le> int n"
    "is_finite (float_of_int (int n))" "\<not> fsign (float_of_int (int n))"
    by blast
  have "fdiv a (float_of_int (int n)) =
          mk_float (fsign a) (round_units (funits a * 2 ^ 149) (m * 2 ^ 149))"
    using a m by (simp add: fdiv_def is_finite_iff Let_def)
  with m(1,3) show ?thesis by blast
qed

lemma fdiv_count_error:
  assumes fin: "is_finite (fdiv a (float_of_int (int n)))" and n: "0 < n" "n < 2 ^ 31"
  shows "is_finite a"
    and "2 * (2 ^ 24 - 1) * \<bar>fval (fdiv a (float_of_int (int n))) * int n - fval a\<bar>
           \<le> 4 * \<bar>fval a\<bar> + (2 ^ 24 + 1) * int n"
proof -
  have fb: "is_finite (float_of_int (int n))"
    using float_of_int_count [OF n] by blast
  show a: "is_finite a"
    using fin fdiv_not_finite [OF _ fb, of a] by blast
  from fdiv_count_bits [OF a n] obtain m where
    m: "0 < m" "2 ^ 24 * \<bar>int m - int n\<bar> \<le> int n"
    and r: "fdiv a (float_of_int (int n)) =
             mk_float (fsign a) (round_units (funits a * 2 ^ 149) (m * 2 ^ 149))"
    by blast
  define fa where "fa = funits a"
  define num where "num = fa * 2 ^ 149"
  define den where "den = m * 2 ^ 149"
  define bits where "bits = round_units num den"
  have va: "fval a = (if fsign a then - int fa else int fa)"
    by (simp add: fval_def fa_def)
  have r': "fdiv a (float_of_int (int n)) = mk_float (fsign a) bits"
    unfolding r bits_def num_def den_def fa_def by (rule refl)
  have den: "0 < den" using m(1) by (simp add: den_def)
  have b31: "bits < 2 ^ 31" unfolding bits_def by (rule round_units_31)
  have lt: "bits < f_inf_bits"
    using fin unfolding r' by (simp add: mk_float_value(1) [OF b31])
  have er: "2 ^ 24 * \<bar>int (units_of_bits bits) * int den - int num\<bar> \<le> int num + 2 ^ 23 * int den"
    using lt unfolding bits_def by (intro round_units_error(1) [OF den])
  define v where "v = int (units_of_bits bits)"
  define P where "P = (2::int) ^ 149"
  have Ppos: "0 < P" by (simp add: P_def)
  have idn: "int den = int m * P" and inum: "int num = int fa * P"
    by (simp_all add: den_def num_def P_def)
  have eq1: "int (units_of_bits bits) * int den - int num = (v * int m - int fa) * P"
    unfolding idn inum v_def by (simp add: algebra_simps)
  have eq2: "int num + 2 ^ 23 * int den = (int fa + 2 ^ 23 * int m) * P"
    unfolding idn inum by (simp add: algebra_simps)
  have "2 ^ 24 * \<bar>(v * int m - int fa) * P\<bar> \<le> (int fa + 2 ^ 23 * int m) * P"
    using er unfolding eq1 eq2 .
  moreover have "\<bar>(v * int m - int fa) * P\<bar> = \<bar>v * int m - int fa\<bar> * P"
    using Ppos by (simp add: abs_mult)
  ultimately have "(2 ^ 24 * \<bar>v * int m - int fa\<bar>) * P \<le> (int fa + 2 ^ 23 * int m) * P"
    by (simp only: mult.assoc)
  then have core: "2 ^ 24 * \<bar>v * int m - int fa\<bar> \<le> int fa + 2 ^ 23 * int m"
    using Ppos by (rule mult_right_le_imp_le)
  define D where "D = \<bar>int m - int n\<bar>"
  define E where "E = \<bar>v * int n - int fa\<bar>"
  define E1 where "E1 = \<bar>v * int m - int fa\<bar>"
  have v0: "0 \<le> v" by (simp add: v_def)
  have "v * int n - int fa = (v * int m - int fa) + v * (int n - int m)"
    by (simp add: algebra_simps)
  moreover have "\<bar>v * (int n - int m)\<bar> = v * D"
    using v0 by (simp add: abs_mult D_def abs_minus_commute)
  ultimately have t1: "E \<le> E1 + v * D"
    unfolding E_def E1_def by linarith
  have "v * (2 ^ 24 * D) \<le> v * int n"
    using m(2) v0 unfolding D_def by (rule mult_left_mono)
  then have t2: "2 ^ 24 * (v * D) \<le> v * int n" by (simp add: algebra_simps)
  have t3: "v * int n \<le> int fa + E" unfolding E_def by linarith
  have t4: "int m \<le> int n + D" unfolding D_def by linarith
  have t5: "2 ^ 24 * D \<le> int n" using m(2) by (simp add: D_def)
  have t6: "2 ^ 24 * E1 \<le> int fa + 2 ^ 23 * int m" using core by (simp add: E1_def)
  have fin_E: "2 * (2 ^ 24 - 1) * E \<le> 4 * int fa + (2 ^ 24 + 1) * int n"
    using t1 t2 t3 t4 t5 t6 by simp
  have fv: "fval (fdiv a (float_of_int (int n))) = (if fsign a then - v else v)"
    unfolding r' v_def by (rule mk_float_value(2) [OF b31])
  have "\<bar>fval (fdiv a (float_of_int (int n))) * int n - fval a\<bar> = E"
    unfolding fv va E_def by (cases "fsign a") (simp_all add: algebra_simps)
  moreover have "\<bar>fval a\<bar> = int fa" by (simp add: va)
  ultimately show "2 * (2 ^ 24 - 1) * \<bar>fval (fdiv a (float_of_int (int n))) * int n - fval a\<bar>
           \<le> 4 * \<bar>fval a\<bar> + (2 ^ 24 + 1) * int n"
    using fin_E by simp
qed

lemma fdiv_count_small:
  assumes a: "is_finite a" and s: "\<bar>fval a\<bar> < 2 ^ 276" and n: "0 < n" "n < 2 ^ 31"
  shows "is_finite (fdiv a (float_of_int (int n)))"
proof -
  from fdiv_count_bits [OF a n] obtain m where
    m: "0 < m"
    and r: "fdiv a (float_of_int (int n)) =
             mk_float (fsign a) (round_units (funits a * 2 ^ 149) (m * 2 ^ 149))"
    by blast
  have "int (funits a) < 2 ^ 276" using s by (auto simp: fval_def split: if_splits)
  then have fas: "funits a < 2 ^ 276"
    by (metis of_nat_less_iff of_nat_numeral of_nat_power)
  have "funits a * 2 ^ 149 < 2 ^ 276 * 2 ^ 149" using fas by simp
  also have "\<dots> \<le> 2 ^ 276 * (m * 2 ^ 149)" using m by simp
  finally have sm: "funits a * 2 ^ 149 < 2 ^ 276 * (m * 2 ^ 149)" .
  have den: "0 < m * 2 ^ 149" using m by simp
  have "round_units (funits a * 2 ^ 149) (m * 2 ^ 149) < f_inf_bits"
    by (rule round_units_small [OF den sm])
  then show ?thesis
    unfolding r by (simp add: mk_float_value(1) [OF round_units_31])
qed

section \<open>The error of the sums\<close>

lemma exact_sum_append: "exact_sum (xs @ ys) = exact_sum xs + exact_sum ys"
  and magnitude_sum_append: "magnitude_sum (xs @ ys) = magnitude_sum xs + magnitude_sum ys"
  and all_finite_append: "all_finite (xs @ ys) = (all_finite xs \<and> all_finite ys)"
  by (auto simp: exact_sum_def magnitude_sum_def all_finite_def)

lemma magnitude_sum_nonneg: "0 \<le> magnitude_sum gs"
  by (auto simp: magnitude_sum_def intro!: sum_list_nonneg)

lemma exact_sum_le_magnitude: "\<bar>exact_sum gs\<bar> \<le> magnitude_sum gs"
  unfolding exact_sum_def magnitude_sum_def
  by (induction gs) auto

lemma is_finite_zero: "is_finite f_zero" and fval_zero: "fval f_zero = 0"
  by (simp_all add: is_finite_def f_zero_def fmag_def f_inf_bits_def fval_def fsign_def
      funits_def units_of_bits_def)

text \<open>One float addition after two sums: \<open>l\<close> stands for the exact number \<open>sl\<close> and \<open>r\<close>
  for \<open>sr\<close>, each with an error of at most \<open>k / 2 ^ 23\<close> of the bounds \<open>al\<close> and \<open>ar\<close> on
  their absolute values.\<close>

lemma fadd_step_bound:
  assumes sl: "\<bar>sl\<bar> \<le> al" and sr: "\<bar>sr\<bar> \<le> ar"
    and el: "2 ^ 23 * \<bar>fval l - sl\<bar> \<le> k * al" and er: "2 ^ 23 * \<bar>fval r - sr\<bar> \<le> k * ar"
    and k: "0 \<le> k" "k \<le> 2 ^ 23"
  shows "\<bar>fval l + fval r\<bar> \<le> 2 * (al + ar)"
proof -
  define x where "x = fval l + fval r"
  have al0: "0 \<le> al" and ar0: "0 \<le> ar" using sl sr by simp_all
  have kl: "k * al \<le> 2 ^ 23 * al" and kr: "k * ar \<le> 2 ^ 23 * ar"
    using k al0 ar0 by (simp_all add: mult_right_mono)
  have "\<bar>x\<bar> \<le> \<bar>fval l - sl\<bar> + \<bar>fval r - sr\<bar> + \<bar>sl\<bar> + \<bar>sr\<bar>"
    unfolding x_def by linarith
  then have "2 ^ 23 * \<bar>x\<bar> \<le> 2 ^ 23 * \<bar>fval l - sl\<bar> + 2 ^ 23 * \<bar>fval r - sr\<bar> +
                              2 ^ 23 * \<bar>sl\<bar> + 2 ^ 23 * \<bar>sr\<bar>"
    by simp
  with el er kl kr sl sr have "2 ^ 23 * \<bar>x\<bar> \<le> 2 ^ 23 * (2 * (al + ar))"
    by simp
  then show ?thesis by (simp add: x_def)
qed

lemma fadd_step_error:
  assumes fin: "is_finite (fadd l r)"
    and sl: "\<bar>sl\<bar> \<le> al" and sr: "\<bar>sr\<bar> \<le> ar"
    and el: "2 ^ 23 * \<bar>fval l - sl\<bar> \<le> k * al" and er: "2 ^ 23 * \<bar>fval r - sr\<bar> \<le> k * ar"
    and k: "0 \<le> k" "k \<le> 2 ^ 23"
  shows "2 ^ 23 * \<bar>fval (fadd l r) - (sl + sr)\<bar> \<le> (k + 1) * (al + ar)"
proof -
  define x where "x = fval l + fval r"
  have xb: "\<bar>x\<bar> \<le> 2 * (al + ar)"
    unfolding x_def using sl sr el er k by (rule fadd_step_bound)
  have "2 ^ 24 * \<bar>fval (fadd l r) - x\<bar> \<le> \<bar>x\<bar>"
    unfolding x_def using fin by (rule fadd_error(3))
  with xb have e: "2 ^ 23 * \<bar>fval (fadd l r) - x\<bar> \<le> al + ar" by simp
  have "\<bar>fval (fadd l r) - (sl + sr)\<bar> \<le>
        \<bar>fval (fadd l r) - x\<bar> + \<bar>fval l - sl\<bar> + \<bar>fval r - sr\<bar>"
    unfolding x_def by linarith
  then have "2 ^ 23 * \<bar>fval (fadd l r) - (sl + sr)\<bar> \<le>
        2 ^ 23 * \<bar>fval (fadd l r) - x\<bar> + 2 ^ 23 * \<bar>fval l - sl\<bar> + 2 ^ 23 * \<bar>fval r - sr\<bar>"
    by simp
  with e el er have "2 ^ 23 * \<bar>fval (fadd l r) - (sl + sr)\<bar> \<le> (al + ar) + k * al + k * ar"
    by simp
  also have "\<dots> = (k + 1) * (al + ar)" by (simp add: algebra_simps)
  finally show ?thesis .
qed

lemma fadd_step_small:
  assumes l: "is_finite l" and r: "is_finite r"
    and sl: "\<bar>sl\<bar> \<le> al" and sr: "\<bar>sr\<bar> \<le> ar"
    and el: "2 ^ 23 * \<bar>fval l - sl\<bar> \<le> k * al" and er: "2 ^ 23 * \<bar>fval r - sr\<bar> \<le> k * ar"
    and k: "0 \<le> k" "k \<le> 2 ^ 23" and a: "al + ar < 2 ^ 275"
  shows "is_finite (fadd l r)"
proof -
  have "\<bar>fval l + fval r\<bar> \<le> 2 * (al + ar)"
    using sl sr el er k by (rule fadd_step_bound)
  with a have "\<bar>fval l + fval r\<bar> < 2 ^ 276" by simp
  with l r show ?thesis by (rule fadd_small)
qed

text \<open>The divide-and-conquer sum of \<open>n\<close> floats, \<open>n\<close> at most \<open>2 ^ k\<close>: when it is finite,
  it is within \<open>k / 2 ^ 23\<close> of the sum of the absolute values from the exact sum.\<close>

lemma sum_grades_recursive_error:
  "0 < n \<Longrightarrow> n \<le> length gs \<Longrightarrow> n \<le> 2 ^ k \<Longrightarrow> k \<le> 2 ^ 23 \<Longrightarrow>
   is_finite (sum_grades_recursive gs n) \<Longrightarrow>
   2 ^ 23 * \<bar>fval (sum_grades_recursive gs n) - exact_sum (take n gs)\<bar>
     \<le> int k * magnitude_sum (take n gs)"
proof (induction n arbitrary: gs k rule: less_induct)
  case (less n)
  show ?case
  proof (cases "n = 1")
    case True
    with less.prems(2) obtain g rest where gs: "gs = g # rest" by (cases gs) auto
    have r: "sum_grades_recursive gs n = g"
      unfolding True gs by (subst sum_grades_recursive.simps) simp
    have t: "take n gs = [g]" by (simp add: True gs)
    have "0 \<le> int k * magnitude_sum [g]"
      by (simp add: magnitude_sum_nonneg)
    then show ?thesis
      unfolding r t by (simp add: exact_sum_def)
  next
    case False
    with less.prems(1) have n2: "2 \<le> n" by simp
    define mid where "mid = n div 2"
    have mid: "0 < mid" "mid < n" "0 < n - mid" "n - mid < n"
      using n2 by (auto simp: mid_def)
    obtain k' where k: "k = Suc k'"
    proof (cases k)
      case 0
      with less.prems(3) n2 show ?thesis by simp
    qed blast
    have n2k: "n \<le> 2 * 2 ^ k'" using less.prems(3) by (simp add: k)
    then have mk: "mid \<le> 2 ^ k'" and nmk: "n - mid \<le> 2 ^ k'"
      unfolding mid_def by linarith+
    have k'b: "k' \<le> 2 ^ 23" using less.prems(4) by (simp add: k)
    let ?L = "take mid gs" and ?R = "take (n - mid) (drop mid gs)"
    have tn: "take n gs = ?L @ ?R"
      using mid by (metis le_add_diff_inverse less_imp_le_nat take_add)
    have ll: "mid \<le> length gs" and lr: "n - mid \<le> length (drop mid gs)"
      using less.prems(2) mid by simp_all
    have un: "sum_grades_recursive gs n =
          fadd (sum_grades_recursive gs mid) (sum_grades_recursive (drop mid gs) (n - mid))"
      using n2 by (subst sum_grades_recursive.simps) (simp add: Let_def mid_def)
    have fin: "is_finite (fadd (sum_grades_recursive gs mid)
                               (sum_grades_recursive (drop mid gs) (n - mid)))"
      using less.prems(5) by (simp only: un)
    note f = fadd_error(1,2) [OF fin]
    from less.IH [OF mid(2) mid(1) ll mk k'b f(1)]
    have L: "2 ^ 23 * \<bar>fval (sum_grades_recursive gs mid) - exact_sum ?L\<bar>
               \<le> int k' * magnitude_sum ?L" .
    from less.IH [OF mid(4) mid(3) lr nmk k'b f(2)]
    have R: "2 ^ 23 * \<bar>fval (sum_grades_recursive (drop mid gs) (n - mid)) - exact_sum ?R\<bar>
               \<le> int k' * magnitude_sum ?R" .
    have kk: "0 \<le> int k'" "int k' \<le> 2 ^ 23"
      using k'b by simp_all
    note step = fadd_step_error [OF fin exact_sum_le_magnitude exact_sum_le_magnitude L R kk]
    have "int k' + 1 = int k" by (simp add: k)
    with step show ?thesis
      unfolding un tn exact_sum_append magnitude_sum_append by simp
  qed
qed

lemma sum_grades_recursive_small:
  "0 < n \<Longrightarrow> n \<le> length gs \<Longrightarrow> n \<le> 2 ^ k \<Longrightarrow> k \<le> 2 ^ 23 \<Longrightarrow>
   all_finite (take n gs) \<Longrightarrow> magnitude_sum (take n gs) < 2 ^ 275 \<Longrightarrow>
   is_finite (sum_grades_recursive gs n)"
proof (induction n arbitrary: gs k rule: less_induct)
  case (less n)
  show ?case
  proof (cases "n = 1")
    case True
    with less.prems(2) obtain g rest where gs: "gs = g # rest" by (cases gs) auto
    have r: "sum_grades_recursive gs n = g"
      unfolding True gs by (subst sum_grades_recursive.simps) simp
    have t: "take n gs = [g]" by (simp add: True gs)
    show ?thesis
      unfolding r using less.prems(5) by (simp add: t all_finite_def)
  next
    case False
    with less.prems(1) have n2: "2 \<le> n" by simp
    define mid where "mid = n div 2"
    have mid: "0 < mid" "mid < n" "0 < n - mid" "n - mid < n"
      using n2 by (auto simp: mid_def)
    obtain k' where k: "k = Suc k'"
    proof (cases k)
      case 0
      with less.prems(3) n2 show ?thesis by simp
    qed blast
    have n2k: "n \<le> 2 * 2 ^ k'" using less.prems(3) by (simp add: k)
    then have mk: "mid \<le> 2 ^ k'" and nmk: "n - mid \<le> 2 ^ k'"
      unfolding mid_def by linarith+
    have k'b: "k' \<le> 2 ^ 23" using less.prems(4) by (simp add: k)
    let ?L = "take mid gs" and ?R = "take (n - mid) (drop mid gs)"
    have tn: "take n gs = ?L @ ?R"
      using mid by (metis le_add_diff_inverse less_imp_le_nat take_add)
    from less.prems(5) have fl: "all_finite ?L" and fr: "all_finite ?R"
      by (simp_all add: tn all_finite_append)
    have A: "magnitude_sum ?L + magnitude_sum ?R < 2 ^ 275"
      using less.prems(6) by (simp add: tn magnitude_sum_append)
    have al: "magnitude_sum ?L < 2 ^ 275" and ar: "magnitude_sum ?R < 2 ^ 275"
      using A magnitude_sum_nonneg [of ?L] magnitude_sum_nonneg [of ?R] by linarith+
    have ll: "mid \<le> length gs" and lr: "n - mid \<le> length (drop mid gs)"
      using less.prems(2) mid by simp_all
    have Lf: "is_finite (sum_grades_recursive gs mid)"
      by (rule less.IH [OF mid(2) mid(1) ll mk k'b fl al])
    have Rf: "is_finite (sum_grades_recursive (drop mid gs) (n - mid))"
      using less.IH [OF mid(4) mid(3) lr nmk k'b] fr ar by simp
    note L = sum_grades_recursive_error [OF mid(1) ll mk k'b Lf]
    note R = sum_grades_recursive_error [OF mid(3) lr nmk k'b Rf]
    have kk: "0 \<le> int k'" "int k' \<le> 2 ^ 23"
      using k'b by simp_all
    have un: "sum_grades_recursive gs n =
          fadd (sum_grades_recursive gs mid) (sum_grades_recursive (drop mid gs) (n - mid))"
      using n2 by (subst sum_grades_recursive.simps) (simp add: Let_def mid_def)
    show ?thesis
      unfolding un
      by (rule fadd_step_small [OF Lf Rf exact_sum_le_magnitude exact_sum_le_magnitude L R kk A])
  qed
qed

text \<open>The same for the sum from left to right, after \<open>j\<close> additions into \<open>acc\<close>.\<close>

lemma foldl_fadd_not_finite: "\<not> is_finite acc \<Longrightarrow> \<not> is_finite (foldl fadd acc gs)"
proof (induction gs arbitrary: acc)
  case Nil
  then show ?case by simp
next
  case (Cons g gs)
  from Cons.prems have "\<not> is_finite (fadd acc g)" by (simp add: fadd_not_finite)
  then show ?case using Cons.IH by simp
qed

lemma foldl_fadd_error:
  "is_finite (foldl fadd acc gs) \<Longrightarrow> \<bar>s0\<bar> \<le> a0 \<Longrightarrow> 2 ^ 23 * \<bar>fval acc - s0\<bar> \<le> int j * a0 \<Longrightarrow>
   j + length gs \<le> 2 ^ 23 \<Longrightarrow>
   2 ^ 23 * \<bar>fval (foldl fadd acc gs) - (s0 + exact_sum gs)\<bar>
     \<le> int (j + length gs) * (a0 + magnitude_sum gs)"
proof (induction gs arbitrary: acc s0 a0 j)
  case Nil
  then show ?case by (simp add: exact_sum_def magnitude_sum_def)
next
  case (Cons g gs)
  have ms: "magnitude_sum (g # gs) = \<bar>fval g\<bar> + magnitude_sum gs"
    and es: "exact_sum (g # gs) = fval g + exact_sum gs"
    by (simp_all add: magnitude_sum_def exact_sum_def)
  have "j \<le> 2 ^ 23" using Cons.prems(4) by simp
  then have "int j \<le> 2 ^ 23" by (metis of_nat_le_iff of_nat_numeral of_nat_power)
  then have jb: "0 \<le> int j" "int j \<le> 2 ^ 23" by simp_all
  have fin': "is_finite (foldl fadd (fadd acc g) gs)" using Cons.prems(1) by simp
  have fin: "is_finite (fadd acc g)"
    using fin' foldl_fadd_not_finite [of "fadd acc g" gs] by blast
  have eg: "2 ^ 23 * \<bar>fval g - fval g\<bar> \<le> int j * \<bar>fval g\<bar>"
    by simp
  have gg: "\<bar>fval g\<bar> \<le> \<bar>fval g\<bar>" by simp
  note step = fadd_step_error [OF fin Cons.prems(2) gg Cons.prems(3) eg jb]
  have s1: "\<bar>s0 + fval g\<bar> \<le> a0 + \<bar>fval g\<bar>" using Cons.prems(2) by linarith
  have e1: "2 ^ 23 * \<bar>fval (fadd acc g) - (s0 + fval g)\<bar> \<le> int (Suc j) * (a0 + \<bar>fval g\<bar>)"
    using step by (simp add: algebra_simps)
  have j1: "Suc j + length gs \<le> 2 ^ 23" using Cons.prems(4) by simp
  from Cons.IH [OF fin' s1 e1 j1] show ?case
    by (simp add: ms es algebra_simps)
qed

lemma foldl_fadd_small:
  "is_finite acc \<Longrightarrow> \<bar>s0\<bar> \<le> a0 \<Longrightarrow> 2 ^ 23 * \<bar>fval acc - s0\<bar> \<le> int j * a0 \<Longrightarrow>
   all_finite gs \<Longrightarrow> a0 + magnitude_sum gs < 2 ^ 275 \<Longrightarrow> j + length gs \<le> 2 ^ 23 \<Longrightarrow>
   is_finite (foldl fadd acc gs)"
proof (induction gs arbitrary: acc s0 a0 j)
  case Nil
  then show ?case by simp
next
  case (Cons g gs)
  have g: "is_finite g" and gs: "all_finite gs"
    using Cons.prems(4) by (simp_all add: all_finite_def)
  have ms: "magnitude_sum (g # gs) = \<bar>fval g\<bar> + magnitude_sum gs"
    by (simp add: magnitude_sum_def)
  have "j \<le> 2 ^ 23" using Cons.prems(6) by simp
  then have "int j \<le> 2 ^ 23" by (metis of_nat_le_iff of_nat_numeral of_nat_power)
  then have jb: "0 \<le> int j" "int j \<le> 2 ^ 23" by simp_all
  have A: "a0 + \<bar>fval g\<bar> < 2 ^ 275"
    using Cons.prems(5) magnitude_sum_nonneg [of gs] by (simp add: ms)
  have eg: "2 ^ 23 * \<bar>fval g - fval g\<bar> \<le> int j * \<bar>fval g\<bar>"
    by simp
  have gg: "\<bar>fval g\<bar> \<le> \<bar>fval g\<bar>" by simp
  have fin: "is_finite (fadd acc g)"
    by (rule fadd_step_small [OF Cons.prems(1) g Cons.prems(2) gg Cons.prems(3) eg jb A])
  note step = fadd_step_error [OF fin Cons.prems(2) gg Cons.prems(3) eg jb]
  have s1: "\<bar>s0 + fval g\<bar> \<le> a0 + \<bar>fval g\<bar>" using Cons.prems(2) by linarith
  have e1: "2 ^ 23 * \<bar>fval (fadd acc g) - (s0 + fval g)\<bar> \<le> int (Suc j) * (a0 + \<bar>fval g\<bar>)"
    using step by (simp add: algebra_simps)
  have A1: "a0 + \<bar>fval g\<bar> + magnitude_sum gs < 2 ^ 275"
    using Cons.prems(5) by (simp add: ms)
  have j1: "Suc j + length gs \<le> 2 ^ 23" using Cons.prems(6) by simp
  from Cons.IH [OF fin s1 e1 gs A1 j1] show ?case by simp
qed

section \<open>The divide-and-conquer sum and the sum from left to right\<close>

lemma sum_grades_recursive_refines:
  "n \<le> length gs \<Longrightarrow> sum_grades_recursive gs n = divide_and_conquer_sum (take n gs)"
proof (induction n arbitrary: gs rule: less_induct)
  case (less n)
  consider (zero) "n = 0" | (one) "n = 1" | (more) "2 \<le> n" by linarith
  then show ?case
  proof cases
    case zero
    then show ?thesis
      by (subst sum_grades_recursive.simps, subst divide_and_conquer_sum.simps) simp
  next
    case one
    with less.prems obtain g rest where gs: "gs = g # rest" by (cases gs) auto
    show ?thesis
      unfolding one gs
      by (subst sum_grades_recursive.simps, subst divide_and_conquer_sum.simps) simp
  next
    case more
    define mid where "mid = n div 2"
    have mid: "mid < n" "n - mid < n" using more by (auto simp: mid_def)
    have len: "length (take n gs) = n" using less.prems by simp
    have l: "sum_grades_recursive gs mid = divide_and_conquer_sum (take mid gs)"
      using less.IH [OF mid(1)] less.prems mid(1) by simp
    have r: "sum_grades_recursive (drop mid gs) (n - mid) =
             divide_and_conquer_sum (take (n - mid) (drop mid gs))"
      using less.IH [OF mid(2)] less.prems by simp
    have tl: "take mid (take n gs) = take mid gs"
      using mid(1) by (simp add: min_def)
    have tr: "drop mid (take n gs) = take (n - mid) (drop mid gs)"
      by (simp add: drop_take)
    have ne: "n \<noteq> 0" "n \<noteq> 1" using more by simp_all
    have "divide_and_conquer_sum (take n gs) =
          fadd (divide_and_conquer_sum (take mid (take n gs)))
               (divide_and_conquer_sum (drop mid (take n gs)))"
      unfolding mid_def
      by (subst divide_and_conquer_sum.simps) (simp only: len ne if_False)
    also have "\<dots> = fadd (sum_grades_recursive gs mid)
                        (sum_grades_recursive (drop mid gs) (n - mid))"
      by (simp only: tl tr l r)
    also have "\<dots> = sum_grades_recursive gs n"
      using more by (subst (3) sum_grades_recursive.simps) (simp add: Let_def mid_def)
    finally show ?thesis by simp
  qed
qed

lemma length_le_power: "n \<le> 2 ^ n" for n :: nat
  by (rule less_imp_le) (rule less_exp)

lemma sums_error:
  assumes n: "length gs \<le> 2 ^ 23"
  shows "is_finite (sum_grades_recursive gs (length gs)) \<Longrightarrow>
         2 ^ 23 * \<bar>fval (sum_grades_recursive gs (length gs)) - exact_sum gs\<bar>
           \<le> int (length gs) * magnitude_sum gs"
    and "is_finite (sequential_sum gs) \<Longrightarrow>
         2 ^ 23 * \<bar>fval (sequential_sum gs) - exact_sum gs\<bar>
           \<le> int (length gs) * magnitude_sum gs"
proof -
  show "2 ^ 23 * \<bar>fval (sum_grades_recursive gs (length gs)) - exact_sum gs\<bar>
           \<le> int (length gs) * magnitude_sum gs"
    if fin: "is_finite (sum_grades_recursive gs (length gs))"
  proof (cases "gs = []")
    case True
    then show ?thesis
      by (subst sum_grades_recursive.simps) (simp add: fval_zero exact_sum_def)
  next
    case False
    then have pos: "0 < length gs" by simp
    from sum_grades_recursive_error [OF pos order_refl length_le_power n fin]
    show ?thesis by simp
  qed
  have z: "2 ^ 23 * \<bar>fval f_zero - 0\<bar> \<le> int 0 * 0" by (simp add: fval_zero)
  show "2 ^ 23 * \<bar>fval (sequential_sum gs) - exact_sum gs\<bar>
           \<le> int (length gs) * magnitude_sum gs"
    if fin: "is_finite (sequential_sum gs)"
  proof -
    have "2 ^ 23 * \<bar>fval (foldl fadd f_zero gs) - (0 + exact_sum gs)\<bar>
          \<le> int (0 + length gs) * (0 + magnitude_sum gs)"
      using fin n by (intro foldl_fadd_error [OF _ _ z]) (simp_all add: sequential_sum_def)
    then show ?thesis by (simp add: sequential_sum_def)
  qed
qed

lemma sums_small:
  assumes f: "all_finite gs" and a: "magnitude_sum gs < 2 ^ 275" and n: "length gs \<le> 2 ^ 23"
  shows "is_finite (sum_grades_recursive gs (length gs))"
    and "is_finite (sequential_sum gs)"
proof -
  show "is_finite (sum_grades_recursive gs (length gs))"
  proof (cases "gs = []")
    case True
    then show ?thesis
      by (subst sum_grades_recursive.simps) (simp add: is_finite_zero)
  next
    case False
    then have pos: "0 < length gs" by simp
    from sum_grades_recursive_small [OF pos order_refl length_le_power n] f a
    show ?thesis by simp
  qed
  have z: "2 ^ 23 * \<bar>fval f_zero - 0\<bar> \<le> int 0 * 0" by (simp add: fval_zero)
  have "is_finite (foldl fadd f_zero gs)"
    using f a n by (intro foldl_fadd_small [OF is_finite_zero _ z]) simp_all
  then show "is_finite (sequential_sum gs)" by (simp add: sequential_sum_def)
qed

text \<open>C8, as amended: \<open>sum_grades_recursive\<close> computes the divide-and-conquer sum of the
  specification, and this is the sum from left to right up to rounding. For \<open>n\<close> grades,
  \<open>n\<close> at most \<open>2 ^ 23\<close>: each of the two sums, when it is finite, differs from the exact sum
  of the grades by at most \<open>n / 2 ^ 23\<close> times the sum of their absolute values; two finite
  sums therefore differ from each other by at most \<open>n / 2 ^ 22\<close> times that sum; and both
  sums are finite when every grade is finite and the absolute values add up to less than
  \<open>2 ^ 126\<close> (\<open>2 ^ 275\<close> units).\<close>

theorem sum_grades_recursive_sums:
  "sum_grades_recursive gs (length gs) = divide_and_conquer_sum gs \<and>
   (length gs \<le> 2 ^ 23 \<longrightarrow>
      (is_finite (sum_grades_recursive gs (length gs)) \<longrightarrow>
         2 ^ 23 * \<bar>fval (sum_grades_recursive gs (length gs)) - exact_sum gs\<bar>
           \<le> int (length gs) * magnitude_sum gs) \<and>
      (is_finite (sequential_sum gs) \<longrightarrow>
         2 ^ 23 * \<bar>fval (sequential_sum gs) - exact_sum gs\<bar>
           \<le> int (length gs) * magnitude_sum gs) \<and>
      (is_finite (sum_grades_recursive gs (length gs)) \<and> is_finite (sequential_sum gs) \<longrightarrow>
         2 ^ 22 * \<bar>fval (sum_grades_recursive gs (length gs)) - fval (sequential_sum gs)\<bar>
           \<le> int (length gs) * magnitude_sum gs) \<and>
      (all_finite gs \<and> magnitude_sum gs < 2 ^ 275 \<longrightarrow>
         is_finite (sum_grades_recursive gs (length gs)) \<and> is_finite (sequential_sum gs)))"
proof (intro conjI impI)
  show "sum_grades_recursive gs (length gs) = divide_and_conquer_sum gs"
    using sum_grades_recursive_refines [of "length gs" gs] by simp
next
  assume n: "length gs \<le> 2 ^ 23"
  note e = sums_error [OF n]
  show "2 ^ 23 * \<bar>fval (sum_grades_recursive gs (length gs)) - exact_sum gs\<bar>
        \<le> int (length gs) * magnitude_sum gs"
    if "is_finite (sum_grades_recursive gs (length gs))"
    using that by (rule e(1))
  show "2 ^ 23 * \<bar>fval (sequential_sum gs) - exact_sum gs\<bar>
        \<le> int (length gs) * magnitude_sum gs"
    if "is_finite (sequential_sum gs)"
    using that by (rule e(2))
  show "2 ^ 22 * \<bar>fval (sum_grades_recursive gs (length gs)) - fval (sequential_sum gs)\<bar>
        \<le> int (length gs) * magnitude_sum gs"
    if b: "is_finite (sum_grades_recursive gs (length gs)) \<and> is_finite (sequential_sum gs)"
  proof -
    from b e have d: "2 ^ 23 * \<bar>fval (sum_grades_recursive gs (length gs)) - exact_sum gs\<bar>
        \<le> int (length gs) * magnitude_sum gs"
      and s: "2 ^ 23 * \<bar>fval (sequential_sum gs) - exact_sum gs\<bar>
        \<le> int (length gs) * magnitude_sum gs"
      by blast+
    have "\<bar>fval (sum_grades_recursive gs (length gs)) - fval (sequential_sum gs)\<bar> \<le>
          \<bar>fval (sum_grades_recursive gs (length gs)) - exact_sum gs\<bar> +
          \<bar>fval (sequential_sum gs) - exact_sum gs\<bar>"
      by linarith
    then have "2 ^ 23 * \<bar>fval (sum_grades_recursive gs (length gs)) - fval (sequential_sum gs)\<bar> \<le>
          2 ^ 23 * \<bar>fval (sum_grades_recursive gs (length gs)) - exact_sum gs\<bar> +
          2 ^ 23 * \<bar>fval (sequential_sum gs) - exact_sum gs\<bar>"
      by simp
    with d s show ?thesis by simp
  qed
  show "is_finite (sum_grades_recursive gs (length gs))"
    and "is_finite (sequential_sum gs)"
    if "all_finite gs \<and> magnitude_sum gs < 2 ^ 275"
    using that n by (simp_all add: sums_small)
qed

lemmas sum_run = sum_grades_recursive.simps sequential_sum_def f_zero_def

text \<open>NaN results have the bits of the machine: the sum of the two infinities is the
  default NaN, a NaN grade comes back from the division by the count with its sign and
  payload, and a signalling NaN comes back quiet.\<close>

lemma nan_results:
  "fadd 0x7F800000 0xFF800000 = 0xFFC00000"
  "fdiv 0xFFC00000 (float_of_int 1) = 0xFFC00000"
  "fadd 0x7FA00001 0x3F800000 = 0x7FE00001"
  by (simp_all add: float_arith_eval quiet_nan_def)

theorem sum_grades_recursive_sums_witness:
  "length [0x42486666, 0x4270CCCD, 0x42B50000 :: float] \<le> 2 ^ 23 \<and>
   all_finite [0x42486666, 0x4270CCCD, 0x42B50000] \<and>
   magnitude_sum [0x42486666, 0x4270CCCD, 0x42B50000] < 2 ^ 275 \<and>
   sum_grades_recursive [0x42486666, 0x4270CCCD, 0x42B50000] 3 = 0x4348CCCC \<and>
   divide_and_conquer_sum [0x42486666, 0x4270CCCD, 0x42B50000] = 0x4348CCCC \<and>
   sequential_sum [0x42486666, 0x4270CCCD, 0x42B50000] = 0x4348CCCD \<and>
   is_finite 0x4348CCCC \<and> is_finite 0x4348CCCD \<and>
   2 ^ 22 * \<bar>fval 0x4348CCCC - fval 0x4348CCCD\<bar>
     \<le> 3 * magnitude_sum [0x42486666, 0x4270CCCD, 0x42B50000]"
proof -
  let ?gs = "[0x42486666, 0x4270CCCD, 0x42B50000] :: float list"
  have a: "fadd 0x4270CCCD 0x42B50000 = 0x4316B333"
    by (simp add: float_arith_eval)
  have b: "fadd 0x42486666 0x4316B333 = 0x4348CCCC"
    by (simp add: float_arith_eval)
  have c: "fadd 0 0x42486666 = 0x42486666"
    by (simp add: float_arith_eval)
  have d: "fadd 0x42486666 0x4270CCCD = 0x42DC999A"
    by (simp add: float_arith_eval)
  have e: "fadd 0x42DC999A 0x42B50000 = 0x4348CCCD"
    by (simp add: float_arith_eval)
  have dc: "sum_grades_recursive ?gs 3 = 0x4348CCCC"
    by (simp add: sum_run a b)
  have sq: "sequential_sum ?gs = 0x4348CCCD"
    by (simp add: sum_run c d e)
  have f: "all_finite ?gs"
    by (simp add: all_finite_def is_finite_def fmag_def f_inf_bits_def)
  have m: "magnitude_sum ?gs < 2 ^ 275"
    by (simp add: magnitude_sum_def float_cmp_eval)
  have l: "length ?gs = 3" "length ?gs \<le> 2 ^ 23" by simp_all
  from sum_grades_recursive_sums [of ?gs] f m l(2)
  have r: "sum_grades_recursive ?gs (length ?gs) = divide_and_conquer_sum ?gs"
    and fd: "is_finite (sum_grades_recursive ?gs (length ?gs))"
    and fs: "is_finite (sequential_sum ?gs)"
    by blast+
  from sum_grades_recursive_sums [of ?gs] l(2) fd fs
  have t: "2 ^ 22 * \<bar>fval (sum_grades_recursive ?gs (length ?gs)) - fval (sequential_sum ?gs)\<bar>
        \<le> int (length ?gs) * magnitude_sum ?gs"
    by blast
  from r fd fs t have "divide_and_conquer_sum ?gs = 0x4348CCCC"
    and "is_finite 0x4348CCCC" and "is_finite 0x4348CCCD"
    and "2 ^ 22 * \<bar>fval 0x4348CCCC - fval 0x4348CCCD\<bar> \<le> 3 * magnitude_sum ?gs"
    unfolding l(1) dc sq by simp_all
  with f m dc sq l(2) show ?thesis by blast
qed

text \<open>The two sums are not equal, and not in the last bit only. For the grades 1,
  100000000, -100000000 the divide-and-conquer sum is 1 and the sum from left to right is 0.
  For the grades \<open>FLT_MAX\<close>, \<open>FLT_MAX\<close>, \<open>-FLT_MAX\<close>, whose absolute values add up to more than
  \<open>2 ^ 126\<close>, the divide-and-conquer sum is \<open>FLT_MAX\<close> and the sum from left to right is
  infinite.\<close>

theorem sum_grades_recursive_order_counterexample:
  "sum_grades_recursive [0x3F800000, 0x4CBEBC20, 0xCCBEBC20] 3 = 0x3F800000 \<and>
   sequential_sum [0x3F800000, 0x4CBEBC20, 0xCCBEBC20] = 0 \<and>
   fval 0x3F800000 = 2 ^ 149 \<and> fval 0 = 0 \<and>
   sum_grades_recursive [0x7F7FFFFF, 0x7F7FFFFF, 0xFF7FFFFF] 3 = 0x7F7FFFFF \<and>
   sequential_sum [0x7F7FFFFF, 0x7F7FFFFF, 0xFF7FFFFF] = 0x7F800000 \<and>
   is_finite 0x7F7FFFFF \<and> is_inf 0x7F800000"
proof -
  have a: "fadd 0x4CBEBC20 0xCCBEBC20 = 0"
    by (simp add: float_arith_eval)
  have b: "fadd 0x3F800000 0 = 0x3F800000"
    by (simp add: float_arith_eval)
  have c: "fadd 0 0x3F800000 = 0x3F800000"
    by (simp add: float_arith_eval)
  have d: "fadd 0x3F800000 0x4CBEBC20 = 0x4CBEBC20"
    by (simp add: float_arith_eval)
  have e: "fadd 0x7F7FFFFF 0xFF7FFFFF = 0"
    by (simp add: float_arith_eval)
  have f: "fadd 0x7F7FFFFF 0 = 0x7F7FFFFF"
    by (simp add: float_arith_eval)
  have g: "fadd 0 0x7F7FFFFF = 0x7F7FFFFF"
    by (simp add: float_arith_eval)
  have h: "fadd 0x7F7FFFFF 0x7F7FFFFF = 0x7F800000"
    by (simp add: float_arith_eval)
  have i: "fadd 0x7F800000 0xFF7FFFFF = 0x7F800000"
    by (simp add: float_arith_eval)
  have v: "fval 0x3F800000 = 2 ^ 149" "fval 0 = 0"
    by (simp_all add: float_cmp_eval)
  have w: "is_finite 0x7F7FFFFF" "is_inf 0x7F800000"
    by (simp_all add: is_finite_def is_inf_def fmag_def f_inf_bits_def)
  have "sum_grades_recursive [0x3F800000, 0x4CBEBC20, 0xCCBEBC20] 3 = 0x3F800000"
    by (simp add: sum_run a b)
  moreover have "sequential_sum [0x3F800000, 0x4CBEBC20, 0xCCBEBC20] = 0"
    by (simp add: sum_run c d a)
  moreover have "sum_grades_recursive [0x7F7FFFFF, 0x7F7FFFFF, 0xFF7FFFFF] 3 = 0x7F7FFFFF"
    by (simp add: sum_run e f)
  moreover have "sequential_sum [0x7F7FFFFF, 0x7F7FFFFF, 0xFF7FFFFF] = 0x7F800000"
    by (simp add: sum_run g h i)
  ultimately show ?thesis using v w by simp
qed

section \<open>The average and the arithmetic mean\<close>

lemma recomputed_average_tolerance:
  assumes ne: "gs \<noteq> []" and n: "length gs < 2 ^ 31" and fin: "is_finite (recomputed_average gs)"
  shows "mean_within_tolerance (recomputed_average gs) gs"
proof -
  define n where "n = length gs"
  define s where "s = sum_grades_recursive gs n"
  define A where "A = magnitude_sum gs"
  define S where "S = exact_sum gs"
  define avg where "avg = fdiv s (float_of_int (int n))"
  have npos: "0 < n" and n31: "n < 2 ^ 31" using ne n by (simp_all add: n_def)
  have n2: "n \<le> 2 ^ 31" using n31 by simp
  have k: "(31::nat) \<le> 2 ^ 23" by simp
  have fm: "recomputed_average gs = avg"
    using ne by (simp add: recomputed_average_def avg_def s_def n_def)
  have fa: "is_finite avg" using fin by (simp add: fm)
  note d = fdiv_count_error [OF fa [unfolded avg_def] npos n31, folded avg_def]
  have nl: "n \<le> length gs" by (simp add: n_def)
  from sum_grades_recursive_error [OF npos nl n2 k d(1) [unfolded s_def]]
  have se: "2 ^ 23 * \<bar>fval s - S\<bar> \<le> 31 * A"
    by (simp add: n_def s_def A_def S_def)
  have SA: "\<bar>S\<bar> \<le> A" unfolding S_def A_def by (rule exact_sum_le_magnitude)
  define E where "E = \<bar>fval avg * int n - fval s\<bar>"
  define e where "e = \<bar>fval s - S\<bar>"
  define F where "F = \<bar>fval s\<bar>"
  define X where "X = \<bar>fval avg * int n - S\<bar>"
  define N where "N = int n"
  have c1: "33554430 * E \<le> 4 * F + 16777217 * N"
    using d(2) by (simp add: E_def F_def N_def)
  have c2: "8388608 * e \<le> 31 * A" using se by (simp add: e_def)
  have c3: "F \<le> A + e" unfolding F_def e_def using SA by linarith
  have c4: "X \<le> E + e" unfolding X_def E_def e_def by linarith
  have c5: "0 \<le> e" "0 \<le> N" "0 \<le> A"
    using SA by (simp_all add: e_def N_def)
  have "131072 * X \<le> A + 131072 * N"
    using c1 c2 c3 c4 c5 by linarith
  then have "2 ^ 17 * \<bar>fval avg * int n - S\<bar> \<le> A + 2 ^ 17 * int n"
    by (simp add: X_def N_def)
  then show ?thesis
    using fa by (simp add: mean_within_tolerance_def fm n_def A_def S_def)
qed

lemma recomputed_average_small:
  assumes ne: "gs \<noteq> []" and n: "length gs < 2 ^ 31"
    and f: "all_finite gs" and a: "magnitude_sum gs < 2 ^ 275"
  shows "is_finite (recomputed_average gs)"
proof -
  define n where "n = length gs"
  define s where "s = sum_grades_recursive gs n"
  have npos: "0 < n" and n31: "n < 2 ^ 31" using ne n by (simp_all add: n_def)
  have n2: "n \<le> 2 ^ 31" using n31 by simp
  have k: "(31::nat) \<le> 2 ^ 23" by simp
  have nl: "n \<le> length gs" by (simp add: n_def)
  from sum_grades_recursive_small [OF npos nl n2 k] f a
  have sf: "is_finite s" by (simp add: n_def s_def)
  from sum_grades_recursive_error [OF npos nl n2 k sf [unfolded s_def]]
  have se: "2 ^ 23 * \<bar>fval s - exact_sum gs\<bar> \<le> 31 * magnitude_sum gs"
    by (simp add: n_def s_def)
  have SA: "\<bar>exact_sum gs\<bar> \<le> magnitude_sum gs" by (rule exact_sum_le_magnitude)
  have "\<bar>fval s\<bar> \<le> \<bar>fval s - exact_sum gs\<bar> + \<bar>exact_sum gs\<bar>" by linarith
  then have "2 ^ 23 * \<bar>fval s\<bar> \<le> 2 ^ 23 * \<bar>fval s - exact_sum gs\<bar> + 2 ^ 23 * \<bar>exact_sum gs\<bar>"
    by simp
  with se SA a have s276: "\<bar>fval s\<bar> < 2 ^ 276" by simp
  have "is_finite (fdiv s (float_of_int (int n)))"
    using sf s276 npos n31 by (rule fdiv_count_small)
  then show ?thesis
    using ne by (simp add: recomputed_average_def s_def n_def)
qed

text \<open>A NaN average is within reach of the menu: its range check
  \<open>grade < 0.0f || grade > 100.0f\<close> is false for a NaN, which \<open>strtof\<close> reads from the
  input \<open>nan\<close>, and the average of the single grade NaN is NaN.\<close>

lemma nan_average_reachable:
  "reachable (snd (add_grade_to_student
      (snd (add_student init_students 1 (Some ''A''))) 1 0x7FC00000)) \<and>
   map average (snd (add_grade_to_student
      (snd (add_student init_students 1 (Some ''A''))) 1 0x7FC00000)) = [0x7FC00000] \<and>
   is_nan 0x7FC00000 \<and> \<not> flt 0x7FC00000 0 \<and> \<not> fgt 0x7FC00000 0x42C80000"
proof -
  have o: "float_of_int 1 = 0x3F800000"
    by (simp add: float_arith_eval)
  have d: "fdiv 0x7FC00000 0x3F800000 = 0x7FC00000"
    by (simp add: float_arith_eval quiet_nan_def)
  have "recomputed_average [0x7FC00000] = 0x7FC00000"
    by (simp add: recomputed_average_def sum_grades_recursive.simps o d)
  then have "map average (snd (add_grade_to_student
      (snd (add_student init_students 1 (Some ''A''))) 1 0x7FC00000)) = [0x7FC00000]"
    by (simp add: store_run)
  moreover have "reachable (snd (add_grade_to_student
      (snd (add_student init_students 1 (Some ''A''))) 1 0x7FC00000))"
    by (intro r_grade r_add r_init)
  moreover have "is_nan 0x7FC00000" "\<not> flt 0x7FC00000 0" "\<not> fgt 0x7FC00000 0x42C80000"
    by (simp_all add: flt_def fgt_def is_nan_def fmag_def f_inf_bits_def)
  ultimately show ?thesis by simp
qed

text \<open>C2, as amended: in every reachable store a record without grades has the average
  \<open>+0.0\<close>, and the average of a record with grades (fewer than \<open>2 ^ 31\<close>, the range of the
  C \<open>int\<close> that counts them) is, whenever it is a finite float, their arithmetic mean
  within floating-point tolerance; it is a finite float when every grade is finite and the
  absolute values of the grades add up to less than \<open>2 ^ 126\<close> (\<open>2 ^ 275\<close> units).
  \<open>add_grade_to_student\<close> returns false exactly when the id is absent; otherwise it appends
  the grade to the first record of that id and stores an average for which the same
  holds.\<close>

theorem add_grade_recomputes_average:
  "(reachable students \<longrightarrow>
      (\<forall>s\<in>set students.
         (grades s = [] \<longrightarrow> average s = f_zero) \<and>
         (grades s \<noteq> [] \<and> length (grades s) < 2 ^ 31 \<longrightarrow>
            (is_finite (average s) \<longrightarrow> mean_within_tolerance (average s) (grades s)) \<and>
            (all_finite (grades s) \<and> magnitude_sum (grades s) < 2 ^ 275 \<longrightarrow>
               is_finite (average s))))) \<and>
   ((fst (add_grade_to_student students i_d g) = False) = (i_d \<notin> id_st ` set students)) \<and>
   (i_d \<in> id_st ` set students \<longrightarrow>
      (\<exists>k<length students. \<exists>a.
         id_st (students ! k) = i_d \<and> (\<forall>j<k. id_st (students ! j) \<noteq> i_d) \<and>
         add_grade_to_student students i_d g =
           (True, students[k := (students ! k)\<lparr>grades := grades (students ! k) @ [g],
                                 average := a\<rparr>]) \<and>
         (length (grades (students ! k) @ [g]) < 2 ^ 31 \<longrightarrow>
            (is_finite a \<longrightarrow> mean_within_tolerance a (grades (students ! k) @ [g])) \<and>
            (all_finite (grades (students ! k) @ [g]) \<and>
             magnitude_sum (grades (students ! k) @ [g]) < 2 ^ 275 \<longrightarrow> is_finite a))))"
proof (intro conjI impI ballI)
  fix s
  assume r: "reachable students" and s: "s \<in> set students"
  from reachable_mean [OF r] s have m: "average s = recomputed_average (grades s)" by simp
  show "average s = f_zero" if "grades s = []"
    using m that by (simp add: recomputed_average_def)
  show "mean_within_tolerance (average s) (grades s)"
    if "grades s \<noteq> [] \<and> length (grades s) < 2 ^ 31" and "is_finite (average s)"
    using that unfolding m by (intro recomputed_average_tolerance) simp_all
  show "is_finite (average s)"
    if "grades s \<noteq> [] \<and> length (grades s) < 2 ^ 31"
      and "all_finite (grades s) \<and> magnitude_sum (grades s) < 2 ^ 275"
    using that unfolding m by (intro recomputed_average_small) simp_all
next
  show "(fst (add_grade_to_student students i_d g) = False) = (i_d \<notin> id_st ` set students)"
  proof (cases "i_d \<in> id_st ` set students")
    case True
    from add_grade_result [OF True, of g] show ?thesis using True by auto
  next
    case False
    then show ?thesis by (simp add: add_grade_absent)
  qed
next
  assume "i_d \<in> id_st ` set students"
  from add_grade_result [OF this, of g] obtain k where
    k: "k < length students" "id_st (students ! k) = i_d" "\<forall>j<k. id_st (students ! j) \<noteq> i_d"
    "add_grade_to_student students i_d g =
       (True, students[k := (students ! k)\<lparr>grades := grades (students ! k) @ [g],
                             average := recomputed_average (grades (students ! k) @ [g])\<rparr>])"
    by blast
  let ?gs = "grades (students ! k) @ [g]"
  have "length ?gs < 2 ^ 31 \<longrightarrow>
          (is_finite (recomputed_average ?gs) \<longrightarrow> mean_within_tolerance (recomputed_average ?gs) ?gs) \<and>
          (all_finite ?gs \<and> magnitude_sum ?gs < 2 ^ 275 \<longrightarrow> is_finite (recomputed_average ?gs))"
  proof (intro impI conjI)
    assume l: "length ?gs < 2 ^ 31"
    show "mean_within_tolerance (recomputed_average ?gs) ?gs" if "is_finite (recomputed_average ?gs)"
      using l that by (intro recomputed_average_tolerance) simp_all
    show "is_finite (recomputed_average ?gs)" if "all_finite ?gs \<and> magnitude_sum ?gs < 2 ^ 275"
      using l that by (intro recomputed_average_small) simp_all
  qed
  with k show "\<exists>k<length students. \<exists>a.
         id_st (students ! k) = i_d \<and> (\<forall>j<k. id_st (students ! j) \<noteq> i_d) \<and>
         add_grade_to_student students i_d g =
           (True, students[k := (students ! k)\<lparr>grades := grades (students ! k) @ [g],
                                 average := a\<rparr>]) \<and>
         (length (grades (students ! k) @ [g]) < 2 ^ 31 \<longrightarrow>
            (is_finite a \<longrightarrow> mean_within_tolerance a (grades (students ! k) @ [g])) \<and>
            (all_finite (grades (students ! k) @ [g]) \<and>
             magnitude_sum (grades (students ! k) @ [g]) < 2 ^ 275 \<longrightarrow> is_finite a))"
    by blast
qed

theorem add_grade_recomputes_average_witness:
  "reachable (snd (add_grade_to_student (snd (add_grade_to_student
      (snd (add_student (snd (add_student init_students 1 (Some ''A''))) 2 (Some ''B'')))
      1 0x42A00000)) 1 0x42B40000)) \<and>
   map grades (snd (add_grade_to_student (snd (add_grade_to_student
      (snd (add_student (snd (add_student init_students 1 (Some ''A''))) 2 (Some ''B'')))
      1 0x42A00000)) 1 0x42B40000)) = [[0x42A00000, 0x42B40000], []] \<and>
   map average (snd (add_grade_to_student (snd (add_grade_to_student
      (snd (add_student (snd (add_student init_students 1 (Some ''A''))) 2 (Some ''B'')))
      1 0x42A00000)) 1 0x42B40000)) = [0x42AA0000, 0] \<and>
   all_finite [0x42A00000, 0x42B40000] \<and> magnitude_sum [0x42A00000, 0x42B40000] < 2 ^ 275 \<and>
   is_finite 0x42AA0000 \<and>
   mean_within_tolerance 0x42AA0000 [0x42A00000, 0x42B40000] \<and>
   fst (add_grade_to_student (snd (add_student init_students 1 (Some ''A''))) 2 0x42A00000) = False \<and>
   fst (add_grade_to_student (snd (add_student init_students 1 (Some ''A''))) 1 0x42A00000) = True"
proof -
  let ?s = "snd (add_grade_to_student (snd (add_grade_to_student
      (snd (add_student (snd (add_student init_students 1 (Some ''A''))) 2 (Some ''B'')))
      1 0x42A00000)) 1 0x42B40000)"
  let ?t = "snd (add_student init_students 1 (Some ''A''))"
  have r: "reachable ?s"
    by (intro r_grade r_add r_init)
  have g: "map grades ?s = [[0x42A00000, 0x42B40000], []]"
    by (simp add: store_run)
  have a: "map average ?s = [0x42AA0000, 0]"
    by (simp add: store_run recomputed_average_80_90) (simp add: recomputed_average_def f_zero_def)
  have f: "all_finite [0x42A00000, 0x42B40000]"
    by (simp add: all_finite_def is_finite_def fmag_def f_inf_bits_def)
  have m: "magnitude_sum [0x42A00000, 0x42B40000] < 2 ^ 275"
    by (simp add: magnitude_sum_def float_cmp_eval)
  have l: "length ?s = 2"
    using arg_cong [OF g, of length] by simp
  have s0: "?s ! 0 \<in> set ?s" by (rule nth_mem) (simp add: l)
  have g0: "grades (?s ! 0) = [0x42A00000, 0x42B40000]"
    using arg_cong [OF g, of "\<lambda>xs. xs ! 0"] l by (simp add: nth_map)
  have a0: "average (?s ! 0) = 0x42AA0000"
    using arg_cong [OF a, of "\<lambda>xs. xs ! 0"] l by (simp add: nth_map)
  have ab: "2 \<notin> id_st ` set ?t"
    by (simp add: store_run)
  have gl: "grades (?s ! 0) \<noteq> [] \<and> length (grades (?s ! 0)) < 2 ^ 31"
    by (simp add: g0)
  from add_grade_recomputes_average [of ?s] r s0 gl
  have "all_finite (grades (?s ! 0)) \<and> magnitude_sum (grades (?s ! 0)) < 2 ^ 275 \<longrightarrow>
          is_finite (average (?s ! 0))"
    and "is_finite (average (?s ! 0)) \<longrightarrow>
          mean_within_tolerance (average (?s ! 0)) (grades (?s ! 0))"
    by blast+
  then have fa: "is_finite 0x42AA0000"
    and t: "mean_within_tolerance 0x42AA0000 [0x42A00000, 0x42B40000]"
    unfolding g0 a0 using f m by simp_all
  from add_grade_recomputes_average [of ?t 2 "0x42A00000"] ab
  have n: "fst (add_grade_to_student ?t 2 0x42A00000) = False"
    by blast
  have pr: "1 \<in> id_st ` set ?t"
    by (simp add: store_run)
  from add_grade_recomputes_average [of ?t 1 "0x42A00000"] pr
  obtain k a' where "add_grade_to_student ?t 1 0x42A00000 =
      (True, ?t[k := (?t ! k)\<lparr>grades := grades (?t ! k) @ [0x42A00000], average := a'\<rparr>])"
    by blast
  then have p: "fst (add_grade_to_student ?t 1 0x42A00000) = True"
    by simp
  from r g a f m fa t n p show ?thesis by blast
qed

text \<open>The average is not the arithmetic mean for all grades, not even within tolerance:
  for the grades \<open>FLT_MAX\<close> and \<open>FLT_MAX\<close> the mean is \<open>FLT_MAX\<close>, a finite float, and the
  stored average is \<open>+inf\<close>, because the sum of the two overflows.\<close>

theorem average_overflow_counterexample:
  "map average (snd (add_grade_to_student (snd (add_grade_to_student
      (snd (add_student init_students 1 (Some ''A''))) 1 0x7F7FFFFF)) 1 0x7F7FFFFF))
     = [0x7F800000] \<and>
   is_inf 0x7F800000 \<and> all_finite [0x7F7FFFFF, 0x7F7FFFFF] \<and>
   exact_sum [0x7F7FFFFF, 0x7F7FFFFF] = fval 0x7F7FFFFF * 2 \<and>
   \<not> mean_within_tolerance 0x7F800000 [0x7F7FFFFF, 0x7F7FFFFF]"
proof -
  have h: "fadd 0x7F7FFFFF 0x7F7FFFFF = 0x7F800000"
    by (simp add: float_arith_eval)
  have t: "float_of_int 2 = 0x40000000"
    by (simp add: float_arith_eval)
  have d: "fdiv 0x7F800000 0x40000000 = 0x7F800000"
    by (simp add: float_arith_eval)
  have "recomputed_average [0x7F7FFFFF, 0x7F7FFFFF] = 0x7F800000"
    by (simp add: recomputed_average_def sum_grades_recursive.simps h t d)
  then have "map average (snd (add_grade_to_student (snd (add_grade_to_student
      (snd (add_student init_students 1 (Some ''A''))) 1 0x7F7FFFFF)) 1 0x7F7FFFFF))
     = [0x7F800000]"
    by (simp add: store_run)
  moreover have "is_inf 0x7F800000" "\<not> is_finite 0x7F800000" "all_finite [0x7F7FFFFF, 0x7F7FFFFF]"
    by (simp_all add: all_finite_def is_finite_def is_inf_def fmag_def f_inf_bits_def)
  moreover have "exact_sum [0x7F7FFFFF, 0x7F7FFFFF] = fval 0x7F7FFFFF * 2"
    by (simp add: exact_sum_def)
  ultimately show ?thesis by (simp add: mean_within_tolerance_def)
qed

end
